theory Spec2Isabelle
  imports Main "HOL-Library.Sublist"
begin

section \<open>Python values\<close>

text \<open>
  The values that \<open>object_merge\<close> and \<open>deduplicate\<close> of \<open>dynaconf/utils/__init__.py\<close>
  work on: scalars (\<open>None\<close>, integers, strings, the \<open>Missing\<close> sentinel), lists and
  dicts. A dict is an association list in insertion order, with string keys; a Python
  dict never holds a key twice, which is \<open>distinct (map fst kvs)\<close>.
  Booleans and floats are not modelled.
\<close>

datatype pyval =
    PNone
  | PInt int
  | PStr string
  | PMissing
  | PList "pyval list"
  | PDict "(string \<times> pyval) list"

text \<open>\<open>isinstance(x, list)\<close> and \<open>isinstance(x, dict)\<close>.\<close>

fun is_list :: "pyval \<Rightarrow> bool" where
  "is_list (PList xs) = True"
| "is_list v = False"

fun is_dict :: "pyval \<Rightarrow> bool" where
  "is_dict (PDict kvs) = True"
| "is_dict v = False"

section \<open>The sentinel \<open>Missing\<close>\<close>

text \<open>
  \<open>Missing.__bool__(self)\<close> returns \<open>False\<close>; \<open>Missing.__eq__(self, other)\<close> returns
  \<open>isinstance(other, self.__class__)\<close>; \<open>missing = Missing()\<close>.
\<close>

definition Missing_bool :: "bool" where
  "Missing_bool = False"

definition Missing_eq :: "pyval \<Rightarrow> bool" where
  "Missing_eq other = (case other of PMissing \<Rightarrow> True | _ \<Rightarrow> False)"

definition missing :: "pyval" where
  "missing = PMissing"

text \<open>
  \<open>bool(x)\<close>, truth value testing: \<open>None\<close>, zero and the empty string, list and dict
  are false; an instance of \<open>Missing\<close> answers with its \<open>__bool__\<close>.
\<close>

fun py_bool :: "pyval \<Rightarrow> bool" where
  "py_bool PNone = False"
| "py_bool (PInt i) = (i \<noteq> 0)"
| "py_bool (PStr s) = (s \<noteq> [])"
| "py_bool PMissing = Missing_bool"
| "py_bool (PList xs) = (xs \<noteq> [])"
| "py_bool (PDict kvs) = (kvs \<noteq> [])"

section \<open>Python equality and membership\<close>

text \<open>
  \<open>x == y\<close>. A sentinel on either side is decided by \<open>Missing.__eq__\<close> (on the right
  it is reached as the reflected operand, the left operand's type not knowing it).
  Scalars are equal when they are the same scalar, lists when they are equal element
  by element, dicts when they have the same number of items and every key of the
  left one is in the right one with an equal value.
\<close>

fun py_eq :: "pyval \<Rightarrow> pyval \<Rightarrow> bool"
  and py_eq_list :: "pyval list \<Rightarrow> pyval list \<Rightarrow> bool"
  and py_eq_items :: "(string \<times> pyval) list \<Rightarrow> (string \<times> pyval) list \<Rightarrow> bool"
where
  "py_eq PMissing y = Missing_eq y"
| "py_eq PNone y = (case y of PNone \<Rightarrow> True | PMissing \<Rightarrow> Missing_eq PNone | _ \<Rightarrow> False)"
| "py_eq (PInt i) y = (case y of PInt j \<Rightarrow> i = j | PMissing \<Rightarrow> Missing_eq (PInt i) | _ \<Rightarrow> False)"
| "py_eq (PStr s) y = (case y of PStr t \<Rightarrow> s = t | PMissing \<Rightarrow> Missing_eq (PStr s) | _ \<Rightarrow> False)"
| "py_eq (PList xs) y =
     (case y of PList ys \<Rightarrow> py_eq_list xs ys | PMissing \<Rightarrow> Missing_eq (PList xs) | _ \<Rightarrow> False)"
| "py_eq (PDict kvs) y =
     (case y of PDict kws \<Rightarrow> length kvs = length kws \<and> py_eq_items kvs kws
      | PMissing \<Rightarrow> Missing_eq (PDict kvs) | _ \<Rightarrow> False)"
| "py_eq_list [] ys = (ys = [])"
| "py_eq_list (x # xs) ys = (case ys of [] \<Rightarrow> False | y # ys' \<Rightarrow> py_eq x y \<and> py_eq_list xs ys')"
| "py_eq_items [] kws = True"
| "py_eq_items ((k, v) # kvs) kws =
     ((case map_of kws k of None \<Rightarrow> False | Some w \<Rightarrow> py_eq v w) \<and> py_eq_items kvs kws)"

text \<open>\<open>item in xs\<close>: some element of \<open>xs\<close> is equal to \<open>item\<close>.\<close>

fun py_in :: "pyval \<Rightarrow> pyval list \<Rightarrow> bool" where
  "py_in item [] = False"
| "py_in item (e # es) = (py_eq item e \<or> py_in item es)"


definition py_nodup :: "pyval list \<Rightarrow> bool" where
  "py_nodup xs = (\<forall>j<length xs. \<forall>i<j. \<not> py_eq (xs ! j) (xs ! i))"

section \<open>\<open>deduplicate\<close>\<close>

text \<open>
  \<open>new = []; for item in list_object: if item not in new: new.append(item); return new\<close>.
  \<open>dedup_loop\<close> is the loop with \<open>new\<close> as its state.
\<close>

fun dedup_loop :: "pyval list \<Rightarrow> pyval list \<Rightarrow> pyval list" where
  "dedup_loop new [] = new"
| "dedup_loop new (item # rest) =
     (if \<not> py_in item new then dedup_loop (new @ [item]) rest else dedup_loop new rest)"

definition deduplicate :: "pyval list \<Rightarrow> pyval list" where
  "deduplicate list_object = dedup_loop [] list_object"

section \<open>\<open>object_merge\<close> on values\<close>

text \<open>
  \<open>object_merge(old, new, unique)\<close> returns nothing and changes \<open>new\<close> in place; the
  model returns the value \<open>new\<close> holds after the call. Values are trees: this is the
  call on arguments that hold no object twice and share none. The model on a store
  with references follows, and \<open>object_merge_st_refines\<close> relates the two.

  \<open>insert_loop\<close> is \<open>for item in old[::-1]: if unique and item in new: continue;
  new.insert(0, item)\<close>, given the reversed list.
\<close>

fun insert_loop :: "bool \<Rightarrow> pyval list \<Rightarrow> pyval list \<Rightarrow> pyval list" where
  "insert_loop unique [] new = new"
| "insert_loop unique (item # rest) new =
     (if unique \<and> py_in item new then insert_loop unique rest new
      else insert_loop unique rest (item # new))"

text \<open>
  \<open>set_item\<close> is \<open>new[key] = value\<close> for a key that \<open>new\<close> holds (the item keeps its
  place); a key that \<open>new\<close> does not hold is appended.
\<close>

fun set_item :: "string \<Rightarrow> pyval \<Rightarrow> (string \<times> pyval) list \<Rightarrow> (string \<times> pyval) list" where
  "set_item key value [] = [(key, value)]"
| "set_item key value ((k, w) # kws) =
     (if k = key then (key, value) # kws else (k, w) # set_item key value kws)"

text \<open>
  \<open>merge_items\<close> is \<open>for key, value in old.items(): if key not in new: new[key] = value
  else: object_merge(value, new[key])\<close>; the recursive call does not pass \<open>unique\<close>, so it
  runs with the default \<open>False\<close>, and what it leaves in \<open>new[key]\<close> is stored back.
  This is the loop on trees only: an object held under two keys and the exception of
  a dict that changes while it is iterated over are in \<open>merge_items_st\<close> below, the loop
  on the store.
\<close>

fun object_merge :: "pyval \<Rightarrow> pyval \<Rightarrow> bool \<Rightarrow> pyval"
  and merge_items :: "(string \<times> pyval) list \<Rightarrow> (string \<times> pyval) list \<Rightarrow> (string \<times> pyval) list"
where
  "object_merge (PList old) (PList new) unique =
     (if py_eq (PList old) (PList new) then PList new
      else PList (insert_loop unique (rev old) new))"
| "object_merge (PDict old) (PDict new) unique = PDict (merge_items old new)"
| "object_merge old new unique = new"
| "merge_items [] new = new"
| "merge_items ((key, value) # rest) new =
     (case map_of new key of
        None \<Rightarrow> merge_items rest (set_item key value new)
      | Some w \<Rightarrow> merge_items rest (set_item key (object_merge value w False) new))"

section \<open>\<open>object_merge\<close> on a store of objects\<close>

text \<open>
  Lists and dicts are objects, held by reference: two slots can hold the same
  object, and \<open>new[key] = value\<close> stores old's object itself in \<open>new\<close>. A slot holds an
  immutable scalar or the address of a list or dict object; the store maps the
  addresses in use to their objects.
\<close>

type_synonym addr = nat

datatype sval = SNone | SInt int | SStr string | SMissing | SRef addr

datatype obj = OList "sval list" | ODict "(string \<times> sval) list"

type_synonym store = "addr \<Rightarrow> obj option"

fun slots :: "obj \<Rightarrow> sval list" where
  "slots (OList xs) = xs"
| "slots (ODict kvs) = map snd kvs"

text \<open>\<open>map_opt f xs\<close> applies \<open>f\<close> to each element in turn and has no result once \<open>f\<close> has none.\<close>

fun map_opt :: "('a \<Rightarrow> 'b option) \<Rightarrow> 'a list \<Rightarrow> 'b list option" where
  "map_opt f [] = Some []"
| "map_opt f (x # xs) =
     (case f x of
        None \<Rightarrow> None
      | Some y \<Rightarrow> (case map_opt f xs of None \<Rightarrow> None | Some ys \<Rightarrow> Some (y # ys)))"

text \<open>
  \<open>cells n s v\<close> lists the objects met when \<open>v\<close> is walked through down to depth \<open>n\<close>,
  an object once for each path that leads to it. It has no result when a reference
  dangles or the structure is deeper than \<open>n\<close>, as a cyclic one is for every \<open>n\<close>.
\<close>

primrec cells :: "nat \<Rightarrow> store \<Rightarrow> sval \<Rightarrow> addr list option" where
  "cells 0 s v = (case v of SRef a \<Rightarrow> None | _ \<Rightarrow> Some [])"
| "cells (Suc n) s v =
     (case v of
        SRef a \<Rightarrow>
          (case s a of
             None \<Rightarrow> None
           | Some ob \<Rightarrow> map_option (\<lambda>cs. a # concat cs) (map_opt (cells n s) (slots ob)))
      | _ \<Rightarrow> Some [])"

text \<open>
  \<open>value_of n s v\<close> is the value that \<open>v\<close> stands for in the store \<open>s\<close>, read down to
  depth \<open>n\<close>; \<open>dict_vals f kvs\<close> reads the values of a dict's items with \<open>f\<close>.
\<close>

fun dict_vals :: "(sval \<Rightarrow> pyval option) \<Rightarrow> (string \<times> sval) list \<Rightarrow> (string \<times> pyval) list option" where
  "dict_vals f [] = Some []"
| "dict_vals f ((k, x) # kvs) =
     (case f x of
        None \<Rightarrow> None
      | Some p \<Rightarrow> (case dict_vals f kvs of None \<Rightarrow> None | Some ps \<Rightarrow> Some ((k, p) # ps)))"

primrec value_of :: "nat \<Rightarrow> store \<Rightarrow> sval \<Rightarrow> pyval option" where
  "value_of 0 s v =
     (case v of SNone \<Rightarrow> Some PNone | SInt i \<Rightarrow> Some (PInt i) | SStr t \<Rightarrow> Some (PStr t)
      | SMissing \<Rightarrow> Some PMissing | SRef a \<Rightarrow> None)"
| "value_of (Suc n) s v =
     (case v of SNone \<Rightarrow> Some PNone | SInt i \<Rightarrow> Some (PInt i) | SStr t \<Rightarrow> Some (PStr t)
      | SMissing \<Rightarrow> Some PMissing
      | SRef a \<Rightarrow>
          (case s a of
             None \<Rightarrow> None
           | Some (OList xs) \<Rightarrow> map_option PList (map_opt (value_of n s) xs)
           | Some (ODict kvs) \<Rightarrow> map_option PDict (dict_vals (value_of n s) kvs)))"

text \<open>
  \<open>x == y\<close> and \<open>item in ys\<close> in the store: the two structures are compared by their
  contents. \<open>item in ys\<close> stops at the first equal element.
\<close>

definition store_eq :: "nat \<Rightarrow> store \<Rightarrow> sval \<Rightarrow> sval \<Rightarrow> bool option" where
  "store_eq n s x y =
     (case value_of n s x of
        None \<Rightarrow> None
      | Some p \<Rightarrow> (case value_of n s y of None \<Rightarrow> None | Some q \<Rightarrow> Some (py_eq p q)))"

fun store_in :: "nat \<Rightarrow> store \<Rightarrow> sval \<Rightarrow> sval list \<Rightarrow> bool option" where
  "store_in n s item [] = Some False"
| "store_in n s item (e # es) =
     (case store_eq n s item e of
        None \<Rightarrow> None
      | Some True \<Rightarrow> Some True
      | Some False \<Rightarrow> store_in n s item es)"

text \<open>
  A call ends with the store it leaves (\<open>Inr\<close>; \<open>object_merge\<close> itself returns nothing)
  or with an exception (\<open>Inl\<close>): Python raises \<open>RuntimeError\<close> when the dict that a
  \<open>for\<close> loop iterates over has changed size. \<open>None\<close> is no result within the depth
  \<open>n\<close>.
\<close>

datatype error = RuntimeError

type_synonym result = "(error + store) option"

text \<open>
  \<open>for item in old[::-1]: if unique and item in new: continue; new.insert(0, item)\<close>, over
  the reversed copy of old's items; \<open>b\<close> is the address of \<open>new\<close>, read again at every
  step.
\<close>

fun insert_loop_st :: "nat \<Rightarrow> bool \<Rightarrow> addr \<Rightarrow> sval list \<Rightarrow> store \<Rightarrow> result" where
  "insert_loop_st n unique b [] s = Some (Inr s)"
| "insert_loop_st n unique b (item # rest) s =
     (case s b of
        Some (OList ys) \<Rightarrow>
          (if unique then
             (case store_in n s item ys of
                None \<Rightarrow> None
              | Some True \<Rightarrow> insert_loop_st n unique b rest s
              | Some False \<Rightarrow> insert_loop_st n unique b rest (s(b \<mapsto> OList (item # ys))))
           else insert_loop_st n unique b rest (s(b \<mapsto> OList (item # ys))))
      | _ \<Rightarrow> None)"

text \<open>
  \<open>for key, value in old.items(): if key not in new: new[key] = value else:
  object_merge(value, new[key])\<close>. \<open>a\<close> and \<open>b\<close> are the addresses of \<open>old\<close> and \<open>new\<close>,
  \<open>size0\<close> the number of items \<open>old\<close> had when the loop began and the list the items
  not yet visited. The iterator checks the size of \<open>old\<close> before every item and once
  more at the end. The objects of the store only ever gain items at their end, so the
  items of \<open>old\<close> are those it had when the loop began as long as its size is the same.
  \<open>call\<close> is the recursive call.
\<close>

fun dict_size :: "store \<Rightarrow> addr \<Rightarrow> nat option" where
  "dict_size s a = (case s a of Some (ODict kvs) \<Rightarrow> Some (length kvs) | _ \<Rightarrow> None)"

fun merge_items_st ::
  "(store \<Rightarrow> sval \<Rightarrow> sval \<Rightarrow> result) \<Rightarrow> addr \<Rightarrow> addr \<Rightarrow> nat \<Rightarrow> (string \<times> sval) list \<Rightarrow> store \<Rightarrow> result"
where
  "merge_items_st call a b size0 [] s =
     (if dict_size s a = Some size0 then Some (Inr s) else Some (Inl RuntimeError))"
| "merge_items_st call a b size0 ((key, value) # rest) s =
     (if dict_size s a \<noteq> Some size0 then Some (Inl RuntimeError)
      else
        (case s b of
           Some (ODict kws) \<Rightarrow>
             (case map_of kws key of
                None \<Rightarrow> merge_items_st call a b size0 rest (s(b \<mapsto> ODict (kws @ [(key, value)])))
              | Some w \<Rightarrow>
                  (case call s value w of
                     Some (Inr s') \<Rightarrow> merge_items_st call a b size0 rest s'
                   | r \<Rightarrow> r))
         | _ \<Rightarrow> None))"

text \<open>
  \<open>object_merge(old, new, unique)\<close> with \<open>n\<close> bounding the depth of the recursion and
  of the comparisons. \<open>isinstance(x, list)\<close> holds of a reference to a list object.
\<close>

primrec object_merge_st :: "nat \<Rightarrow> store \<Rightarrow> sval \<Rightarrow> sval \<Rightarrow> bool \<Rightarrow> result" where
  "object_merge_st 0 s old new unique = None"
| "object_merge_st (Suc n) s old new unique =
     (case (old, new) of
        (SRef a, SRef b) \<Rightarrow>
          (case (s a, s b) of
             (Some (OList xs), Some (OList ys)) \<Rightarrow>
               (case store_eq (Suc n) s old new of
                  None \<Rightarrow> None
                | Some True \<Rightarrow> Some (Inr s)
                | Some False \<Rightarrow> insert_loop_st n unique b (rev xs) s)
           | (Some (ODict kvs), Some (ODict kws)) \<Rightarrow>
               merge_items_st (\<lambda>s' value w. object_merge_st n s' value w False)
                 a b (length kvs) kvs s
           | (Some x, Some y) \<Rightarrow> Some (Inr s)
           | _ \<Rightarrow> None)
      | _ \<Rightarrow> Some (Inr s))"


text \<open>A dict object never holds a key twice.\<close>

fun keys_ok :: "obj option \<Rightarrow> bool" where
  "keys_ok (Some (ODict kvs)) = distinct (map fst kvs)"
| "keys_ok ob = True"

text \<open>The object at an address after a call that ended normally.\<close>

definition obj_after :: "result \<Rightarrow> addr \<Rightarrow> obj option" where
  "obj_after r a = (case r of Some (Inr s) \<Rightarrow> s a | _ \<Rightarrow> None)"

text \<open>
  Two stores. In \<open>alias_store\<close>, \<open>old\<close> (address 0) is
  \<open>{"a": {"x": {}}, "b": {"x": {"z": 1}}}\<close> and \<open>new\<close> (address 5) is \<open>{"a": L, "b": L}\<close>
  with the one dict \<open>L = {}\<close> (address 6) under both keys. In \<open>scenario_store\<close>,
  \<open>old\<close> (address 0) is \<open>{"a": [1,2], "b": {"x": 1}}\<close> and \<open>new\<close> (address 3) is
  \<open>{"a": [3], "b": {"y": 2}}\<close>, no object held twice.
\<close>

definition alias_store :: store where
  "alias_store = Map.empty(
     0 \<mapsto> ODict [(''a'', SRef 1), (''b'', SRef 2)],
     1 \<mapsto> ODict [(''x'', SRef 3)],
     2 \<mapsto> ODict [(''x'', SRef 4)],
     3 \<mapsto> ODict [],
     4 \<mapsto> ODict [(''z'', SInt 1)],
     5 \<mapsto> ODict [(''a'', SRef 6), (''b'', SRef 6)],
     6 \<mapsto> ODict [])"

definition scenario_store :: store where
  "scenario_store = Map.empty(
     0 \<mapsto> ODict [(''a'', SRef 1), (''b'', SRef 2)],
     1 \<mapsto> OList [SInt 1, SInt 2],
     2 \<mapsto> ODict [(''x'', SInt 1)],
     3 \<mapsto> ODict [(''a'', SRef 4), (''b'', SRef 5)],
     4 \<mapsto> OList [SInt 3],
     5 \<mapsto> ODict [(''y'', SInt 2)])"

text \<open>
  \<open>isinstance(x, list)\<close> and \<open>isinstance(x, dict)\<close> in the store: \<open>x\<close> is a reference to a
  list object, to a dict object.
\<close>

definition is_list_st :: "store \<Rightarrow> sval \<Rightarrow> bool" where
  "is_list_st s v =
     (case v of SRef a \<Rightarrow> (case s a of Some (OList xs) \<Rightarrow> True | _ \<Rightarrow> False) | _ \<Rightarrow> False)"

definition is_dict_st :: "store \<Rightarrow> sval \<Rightarrow> bool" where
  "is_dict_st s v =
     (case v of SRef a \<Rightarrow> (case s a of Some (ODict kvs) \<Rightarrow> True | _ \<Rightarrow> False) | _ \<Rightarrow> False)"

text \<open>
  More stores, \<open>old\<close> at address 0 in each.
  \<open>raise_store\<close>: \<open>D = {"c": {"k": {"z": 1}}}\<close> (address 2),
  \<open>old = {"a": {"k": D}, "b": D, "e": 1}\<close>, \<open>L = {}\<close> (address 6) and
  \<open>new = {"a": L, "b": {"c": L}}\<close> (address 5).
  \<open>mismatch_store\<close>: \<open>old = {"k": {}, "j": [1]}\<close>, \<open>L = []\<close> (address 4) and
  \<open>new = {"k": L, "j": L}\<close> (address 3).
  \<open>equal_store\<close>: \<open>old = {"k": [1]}\<close> and \<open>new = {"k": [1]}\<close> (address 2), two list objects.
  \<open>twice_store\<close>: \<open>old = {"k": [1], "j": [2]}\<close>, \<open>L = [9]\<close> (address 4) and
  \<open>new = {"k": L, "j": L}\<close> (address 3).
  \<open>nested_store\<close>: \<open>old = {"k": [1]}\<close> and \<open>new = {"k": [1, 2]}\<close> (address 2).
  \<open>kinds_store\<close>: \<open>old = {"k": [1]}\<close> and \<open>new = {"k": {"z": None}}\<close> (address 2).
\<close>

definition raise_store :: store where
  "raise_store = Map.empty(
     0 \<mapsto> ODict [(''a'', SRef 1), (''b'', SRef 2), (''e'', SInt 1)],
     1 \<mapsto> ODict [(''k'', SRef 2)],
     2 \<mapsto> ODict [(''c'', SRef 3)],
     3 \<mapsto> ODict [(''k'', SRef 4)],
     4 \<mapsto> ODict [(''z'', SInt 1)],
     5 \<mapsto> ODict [(''a'', SRef 6), (''b'', SRef 7)],
     6 \<mapsto> ODict [],
     7 \<mapsto> ODict [(''c'', SRef 6)])"

definition mismatch_store :: store where
  "mismatch_store = Map.empty(
     0 \<mapsto> ODict [(''k'', SRef 1), (''j'', SRef 2)],
     1 \<mapsto> ODict [],
     2 \<mapsto> OList [SInt 1],
     3 \<mapsto> ODict [(''k'', SRef 4), (''j'', SRef 4)],
     4 \<mapsto> OList [])"

definition equal_store :: store where
  "equal_store = Map.empty(
     0 \<mapsto> ODict [(''k'', SRef 1)],
     1 \<mapsto> OList [SInt 1],
     2 \<mapsto> ODict [(''k'', SRef 3)],
     3 \<mapsto> OList [SInt 1])"

definition twice_store :: store where
  "twice_store = Map.empty(
     0 \<mapsto> ODict [(''k'', SRef 1), (''j'', SRef 2)],
     1 \<mapsto> OList [SInt 1],
     2 \<mapsto> OList [SInt 2],
     3 \<mapsto> ODict [(''k'', SRef 4), (''j'', SRef 4)],
     4 \<mapsto> OList [SInt 9])"

definition nested_store :: store where
  "nested_store = Map.empty(
     0 \<mapsto> ODict [(''k'', SRef 1)],
     1 \<mapsto> OList [SInt 1],
     2 \<mapsto> ODict [(''k'', SRef 3)],
     3 \<mapsto> OList [SInt 1, SInt 2])"


definition kinds_store :: store where
  "kinds_store = Map.empty(
     0 \<mapsto> ODict [(''k'', SRef 1)],
     1 \<mapsto> OList [SInt 1],
     2 \<mapsto> ODict [(''k'', SRef 3)],
     3 \<mapsto> ODict [(''z'', SNone)])"


section \<open>Lists: the loops\<close>

lemma py_in_iff: "py_in item xs = (\<exists>e\<in>set xs. py_eq item e)"
  by (induction xs) auto

lemma py_in_append: "py_in item (xs @ ys) = (py_in item xs \<or> py_in item ys)"
  by (auto simp: py_in_iff)

lemma insert_loop_False: "insert_loop False xs new = rev xs @ new"
  by (induction xs arbitrary: new) auto



section \<open>Dicts: keys and lookups after the merge\<close>

lemma map_of_set_item: "map_of (set_item k v kws) k' = (if k' = k then Some v else map_of kws k')"
  by (induction kws) auto

lemma keys_set_item: "fst ` set (set_item k v kws) = insert k (fst ` set kws)"
proof -
  have "dom (map_of (set_item k v kws)) = insert k (dom (map_of kws))"
    by (auto simp: map_of_set_item split: if_splits)
  then show ?thesis
    by (simp add: dom_map_of_conv_image_fst)
qed

lemma set_item_absent: "map_of kws k = None \<Longrightarrow> set_item k v kws = kws @ [(k, v)]"
  by (induction kws) (auto split: if_splits)

lemma keys_merge_items: "fst ` set (merge_items old new) = fst ` set old \<union> fst ` set new"
proof (induction old arbitrary: new)
  case Nil
  then show ?case by simp
next
  case (Cons kv old)
  obtain k v where kv: "kv = (k, v)" by (cases kv)
  show ?case
    by (cases "map_of new k") (simp_all add: kv Cons.IH keys_set_item)
qed

lemma map_of_merge_items:
  "distinct (map fst old) \<Longrightarrow>
   map_of (merge_items old new) k =
     (case map_of old k of
        None \<Rightarrow> map_of new k
      | Some v \<Rightarrow> (case map_of new k of None \<Rightarrow> Some v | Some w \<Rightarrow> Some (object_merge v w False)))"
proof (induction old arbitrary: new)
  case Nil
  then show ?case by simp
next
  case (Cons kv old)
  obtain k' v' where kv: "kv = (k', v')" by (cases kv)
  have d: "distinct (map fst old)" and nk: "k' \<notin> fst ` set old"
    using Cons.prems by (auto simp: kv)
  have none: "map_of old k' = None"
    using nk by (simp add: map_of_eq_None_iff)
  show ?case
  proof (cases "map_of new k'")
    case None
    then show ?thesis
      using none by (auto simp: kv Cons.IH [OF d] map_of_set_item split: option.splits)
  next
    case (Some w)
    then show ?thesis
      using none by (auto simp: kv Cons.IH [OF d] map_of_set_item split: option.splits)
  qed
qed

lemma merge_items_disjoint:
  "distinct (map fst old) \<Longrightarrow> fst ` set old \<inter> fst ` set new = {} \<Longrightarrow>
   merge_items old new = new @ old"
proof (induction old arbitrary: new)
  case Nil
  then show ?case by simp
next
  case (Cons kv old)
  obtain k v where kv: "kv = (k, v)" by (cases kv)
  have none: "map_of new k = None"
    using Cons.prems(2) by (auto simp: kv map_of_eq_None_iff)
  have d: "distinct (map fst old)" and nk: "k \<notin> fst ` set old"
    using Cons.prems(1) by (auto simp: kv)
  have disj: "fst ` set old \<inter> fst ` set (new @ [(k, v)]) = {}"
    using Cons.prems(2) nk by (auto simp: kv)
  show ?case
    using Cons.IH [OF d disj] none by (simp add: kv set_item_absent)
qed

section \<open>\<open>deduplicate\<close>: the loop\<close>

lemma py_nodup_snoc:
  assumes "py_nodup acc" "\<not> py_in item acc"
  shows "py_nodup (acc @ [item])"
  unfolding py_nodup_def
proof (intro allI impI)
  fix j i
  assume j: "j < length (acc @ [item])" and i: "i < j"
  show "\<not> py_eq ((acc @ [item]) ! j) ((acc @ [item]) ! i)"
  proof (cases "j < length acc")
    case True
    then show ?thesis
      using assms(1) i by (simp add: py_nodup_def nth_append)
  next
    case False
    then have "j = length acc" using j by simp
    then show ?thesis
      using assms(2) i by (auto simp: py_in_iff nth_append)
  qed
qed

lemma dedup_loop_nodup: "py_nodup acc \<Longrightarrow> py_nodup (dedup_loop acc xs)"
  by (induction xs arbitrary: acc) (auto intro: py_nodup_snoc)

lemma dedup_loop_prefix: "\<exists>r. dedup_loop acc xs = acc @ r \<and> subseq r xs"
proof (induction xs arbitrary: acc)
  case Nil
  then show ?case by simp
next
  case (Cons item rest)
  show ?case
  proof (cases "py_in item acc")
    case True
    obtain r where "dedup_loop acc rest = acc @ r" "subseq r rest"
      using Cons.IH by blast
    with True show ?thesis by auto
  next
    case False
    obtain r where "dedup_loop (acc @ [item]) rest = (acc @ [item]) @ r" "subseq r rest"
      using Cons.IH by blast
    with False show ?thesis
      by (intro exI [of _ "item # r"]) auto
  qed
qed

lemma dedup_loop_covers:
  "x \<in> set xs \<Longrightarrow> x \<in> set (dedup_loop acc xs) \<or> py_in x (dedup_loop acc xs)"
proof (induction xs arbitrary: acc)
  case Nil
  then show ?case by simp
next
  case (Cons item rest)
  show ?case
  proof (cases "x = item")
    case True
    show ?thesis
    proof (cases "py_in item acc")
      case True
      obtain r where "dedup_loop acc rest = acc @ r"
        using dedup_loop_prefix by blast
      with True \<open>x = item\<close> show ?thesis by (simp add: py_in_append)
    next
      case False
      obtain r where "dedup_loop (acc @ [item]) rest = (acc @ [item]) @ r"
        using dedup_loop_prefix by blast
      with False \<open>x = item\<close> show ?thesis by simp
    qed
  next
    case False
    then have "x \<in> set rest" using Cons.prems by simp
    then show ?thesis using Cons.IH by simp
  qed
qed

lemma dedup_loop_filter:
  "dedup_loop acc xs = acc @ dedup_loop [] (filter (\<lambda>y. \<not> py_in y acc) xs)"
proof (induction xs arbitrary: acc rule: length_induct)
  case (1 xs)
  show ?case
  proof (cases xs)
    case Nil
    then show ?thesis by simp
  next
    case (Cons item rest)
    show ?thesis
    proof (cases "py_in item acc")
      case True
      have "dedup_loop acc rest = acc @ dedup_loop [] (filter (\<lambda>y. \<not> py_in y acc) rest)"
        using "1.IH" Cons by simp
      with True Cons show ?thesis by simp
    next
      case False
      let ?f = "filter (\<lambda>y. \<not> py_in y acc) rest"
      have a: "dedup_loop (acc @ [item]) rest =
                 (acc @ [item]) @ dedup_loop [] (filter (\<lambda>y. \<not> py_in y (acc @ [item])) rest)"
        using "1.IH" Cons by simp
      have "length ?f < length xs"
        using Cons by (simp add: le_imp_less_Suc)
      then have b: "dedup_loop [item] ?f = [item] @ dedup_loop [] (filter (\<lambda>y. \<not> py_in y [item]) ?f)"
        using "1.IH" by blast
      have c: "filter (\<lambda>y. \<not> py_in y [item]) ?f = filter (\<lambda>y. \<not> py_in y (acc @ [item])) rest"
        by (auto simp: py_in_append intro: filter_cong)
      show ?thesis
        using False Cons a b c by simp
    qed
  qed
qed

lemma deduplicate_Cons:
  "deduplicate (x # xs) = x # deduplicate (filter (\<lambda>y. \<not> py_eq y x) xs)"
  using dedup_loop_filter [of "[x]" xs] by (simp add: deduplicate_def)

section \<open>The store: what a call reads and writes\<close>

lemma map_opt_all2: "map_opt f xs = Some ys \<Longrightarrow> list_all2 (\<lambda>x y. f x = Some y) xs ys"
  by (induction xs arbitrary: ys) (auto split: option.splits)

lemma all2_map_opt: "list_all2 (\<lambda>x y. f x = Some y) xs ys \<Longrightarrow> map_opt f xs = Some ys"
  by (induction xs ys rule: list_all2_induct) auto

lemma map_opt_Some_iff:
  "map_opt f xs = Some ys \<longleftrightarrow> list_all2 (\<lambda>x y. f x = Some y) xs ys"
  using map_opt_all2 all2_map_opt by blast

lemma map_opt_defined: "(\<exists>ys. map_opt f xs = Some ys) \<longleftrightarrow> (\<forall>x\<in>set xs. \<exists>y. f x = Some y)"
  by (induction xs) (auto split: option.splits)

lemma map_opt_member:
  assumes "map_opt f xs = Some ys" "x \<in> set xs"
  shows "\<exists>y\<in>set ys. f x = Some y"
  using assms by (induction xs arbitrary: ys) (auto split: option.splits)

lemma map_opt_cong: "(\<And>x. x \<in> set xs \<Longrightarrow> f x = g x) \<Longrightarrow> map_opt f xs = map_opt g xs"
  by (induction xs) (simp_all split: option.splits)

lemma dict_vals_defined:
  "\<forall>x\<in>set (map snd kvs). \<exists>p. f x = Some p \<Longrightarrow> \<exists>ps. dict_vals f kvs = Some ps"
  by (induction kvs) (auto split: option.splits)

lemma dict_vals_cong:
  "(\<And>x. x \<in> set (map snd kvs) \<Longrightarrow> f x = g x) \<Longrightarrow> dict_vals f kvs = dict_vals g kvs"
  by (induction kvs) (auto split: option.splits)

lemma cells_scalar: "(\<And>a. v \<noteq> SRef a) \<Longrightarrow> cells n s v = Some []"
  by (cases n; cases v) auto

lemma cells_ref_Suc:
  "cells (Suc n) s (SRef a) = Some cs \<longleftrightarrow>
     (\<exists>ob css. s a = Some ob \<and> map_opt (cells n s) (slots ob) = Some css \<and> cs = a # concat css)"
  by (auto split: option.splits)

lemma cells_mono: "cells n s v = Some cs \<Longrightarrow> cells (Suc n) s v = Some cs"
proof (induction n arbitrary: v cs)
  case 0
  then show ?case by (cases v) auto
next
  case (Suc n)
  show ?case
  proof (cases v)
    case (SRef a)
    then obtain ob css where ob: "s a = Some ob" "map_opt (cells n s) (slots ob) = Some css"
        "cs = a # concat css"
      using Suc.prems(1) [unfolded SRef cells_ref_Suc] by blast
    have "list_all2 (\<lambda>x y. cells (Suc n) s x = Some y) (slots ob) css"
      using ob(2) Suc.IH by (auto simp: map_opt_Some_iff elim: list_all2_mono)
    then have "map_opt (cells (Suc n) s) (slots ob) = Some css"
      by (simp add: map_opt_Some_iff)
    with ob SRef show ?thesis
      by (simp add: cells_ref_Suc del: cells.simps)
  qed (use Suc.prems in auto)
qed

lemma cells_cong:
  "cells n s v = Some cs \<Longrightarrow> (\<forall>x\<in>set cs. s' x = s x) \<Longrightarrow> cells n s' v = Some cs"
proof (induction n arbitrary: v cs)
  case 0
  then show ?case by (cases v) auto
next
  case (Suc n)
  show ?case
  proof (cases v)
    case (SRef a)
    then obtain ob css where ob: "s a = Some ob" "map_opt (cells n s) (slots ob) = Some css"
        "cs = a # concat css"
      using Suc.prems(1) [unfolded SRef cells_ref_Suc] by blast
    have "list_all2 (\<lambda>x y. cells n s x = Some y) (slots ob) css"
      using ob(2) by (simp add: map_opt_Some_iff)
    then have "list_all2 (\<lambda>x y. cells n s' x = Some y) (slots ob) css"
    proof (rule list.rel_mono_strong)
      fix x y
      assume "x \<in> set (slots ob)" "y \<in> set css" "cells n s x = Some y"
      moreover have "\<forall>z\<in>set y. s' z = s z"
        using Suc.prems(2) ob(3) \<open>y \<in> set css\<close> by auto
      ultimately show "cells n s' x = Some y"
        using Suc.IH by blast
    qed
    then have "map_opt (cells n s') (slots ob) = Some css"
      by (simp add: map_opt_Some_iff)
    moreover have "s' a = Some ob"
      using Suc.prems(2) ob by simp
    ultimately show ?thesis
      using ob SRef by (simp add: cells_ref_Suc del: cells.simps)
  qed (use Suc.prems in auto)
qed

lemma value_of_defined: "cells n s v = Some cs \<Longrightarrow> \<exists>p. value_of n s v = Some p"
proof (induction n arbitrary: v cs)
  case 0
  then show ?case by (cases v) auto
next
  case (Suc n)
  show ?case
  proof (cases v)
    case (SRef a)
    then obtain ob css where ob: "s a = Some ob" "map_opt (cells n s) (slots ob) = Some css"
      using Suc.prems(1) [unfolded SRef cells_ref_Suc] by blast
    have slot: "\<forall>x\<in>set (slots ob). \<exists>p. value_of n s x = Some p"
      using map_opt_member [OF ob(2)] Suc.IH by blast
    show ?thesis
    proof (cases ob)
      case (OList xs)
      then obtain ps where "map_opt (value_of n s) xs = Some ps"
        using slot map_opt_defined [of "value_of n s" xs] by auto
      then show ?thesis using ob(1) OList SRef by simp
    next
      case (ODict kvs)
      have "\<forall>x\<in>set (map snd kvs). \<exists>p. value_of n s x = Some p"
        using slot ODict by simp
      then obtain ps where "dict_vals (value_of n s) kvs = Some ps"
        using dict_vals_defined by blast
      then show ?thesis using ob(1) ODict SRef by simp
    qed
  qed auto
qed

lemma store_eq_defined:
  assumes "cells n s x = Some cx" "cells n s y = Some cy"
  shows "\<exists>r. store_eq n s x y = Some r"
proof -
  obtain p q where "value_of n s x = Some p" "value_of n s y = Some q"
    using assms value_of_defined by blast
  then show ?thesis by (intro exI [of _ "py_eq p q"]) (simp add: store_eq_def)
qed

lemma store_in_defined:
  assumes "cells n s item = Some ci" "\<forall>e\<in>set ys. \<exists>c. cells n s e = Some c"
  shows "\<exists>r. store_in n s item ys = Some r"
  using assms(2)
proof (induction ys)
  case Nil
  show ?case by (rule exI [of _ False]) simp
next
  case (Cons e es)
  obtain r where "store_eq n s item e = Some r"
    using store_eq_defined [OF assms(1)] Cons.prems by fastforce
  moreover obtain r' where "store_in n s item es = Some r'"
    using Cons by auto
  ultimately show ?case by (cases r) auto
qed

lemma value_of_cong:
  "cells n s v = Some cs \<Longrightarrow> (\<forall>x\<in>set cs. s' x = s x) \<Longrightarrow> value_of n s' v = value_of n s v"
proof (induction n arbitrary: v cs)
  case 0
  then show ?case by (cases v) auto
next
  case (Suc n)
  show ?case
  proof (cases v)
    case (SRef a)
    then obtain ob css where ob: "s a = Some ob" "map_opt (cells n s) (slots ob) = Some css"
        "cs = a # concat css"
      using Suc.prems(1) [unfolded SRef cells_ref_Suc] by blast
    have slot: "value_of n s' x = value_of n s x" if x: "x \<in> set (slots ob)" for x
    proof -
      obtain c where "c \<in> set css" "cells n s x = Some c"
        using map_opt_member [OF ob(2) x] by blast
      moreover have "\<forall>z\<in>set c. s' z = s z"
        using Suc.prems(2) ob(3) \<open>c \<in> set css\<close> by auto
      ultimately show ?thesis using Suc.IH by blast
    qed
    have sa: "s' a = Some ob"
      using Suc.prems(2) ob by simp
    show ?thesis
    proof (cases ob)
      case (OList xs)
      have "map_opt (value_of n s') xs = map_opt (value_of n s) xs"
        using slot OList by (intro map_opt_cong) simp
      then show ?thesis using ob(1) sa OList SRef by simp
    next
      case (ODict kvs)
      have "dict_vals (value_of n s') kvs = dict_vals (value_of n s) kvs"
        using slot ODict by (intro dict_vals_cong) simp
      then show ?thesis using ob(1) sa ODict SRef by simp
    qed
  qed auto
qed

lemma insert_loop_st_frame:
  assumes "s b = Some (OList ys)"
    and "\<forall>v\<in>set xs \<union> set ys. \<exists>c. cells n s v = Some c \<and> b \<notin> set c"
  shows "\<exists>zs. insert_loop_st n unique b xs s = Some (Inr (s(b \<mapsto> OList zs)))"
  using assms
proof (induction xs arbitrary: s ys)
  case Nil
  have "s(b \<mapsto> OList ys) = s"
    using Nil.prems(1) by (simp add: fun_upd_idem)
  then show ?case
    by (intro exI [of _ ys]) simp
next
  case (Cons item rest)
  let ?s1 = "s(b \<mapsto> OList (item # ys))"
  have keep: "\<exists>zs. insert_loop_st n unique b rest s = Some (Inr (s(b \<mapsto> OList zs)))"
    by (rule Cons.IH [of s ys]) (use Cons.prems in auto)
  have all1: "\<forall>v\<in>set rest \<union> set (item # ys). \<exists>c. cells n ?s1 v = Some c \<and> b \<notin> set c"
  proof
    fix v
    assume "v \<in> set rest \<union> set (item # ys)"
    then obtain c where c: "cells n s v = Some c" "b \<notin> set c"
      using Cons.prems(2) by auto
    then have "cells n ?s1 v = Some c"
      by (intro cells_cong [OF c(1)]) auto
    with c(2) show "\<exists>c. cells n ?s1 v = Some c \<and> b \<notin> set c" by blast
  qed
  have "\<exists>zs. insert_loop_st n unique b rest ?s1 = Some (Inr (?s1(b \<mapsto> OList zs)))"
  proof (rule Cons.IH [of ?s1 "item # ys"])
    show "?s1 b = Some (OList (item # ys))" by simp
    show "\<forall>v\<in>set rest \<union> set (item # ys). \<exists>c. cells n ?s1 v = Some c \<and> b \<notin> set c"
      by (fact all1)
  qed
  then have ins: "\<exists>zs. insert_loop_st n unique b rest ?s1 = Some (Inr (s(b \<mapsto> OList zs)))"
    by simp
  show ?case
  proof (cases unique)
    case False
    have "insert_loop_st n unique b (item # rest) s = insert_loop_st n unique b rest ?s1"
      using False Cons.prems(1) by simp
    then show ?thesis using ins by (simp only:)
  next
    case True
    obtain ci where "cells n s item = Some ci"
      using Cons.prems(2) by auto
    moreover have "\<forall>e\<in>set ys. \<exists>c. cells n s e = Some c"
      using Cons.prems(2) by auto
    ultimately obtain r where r: "store_in n s item ys = Some r"
      using store_in_defined by blast
    have "insert_loop_st n unique b (item # rest) s =
            (if r then insert_loop_st n unique b rest s else insert_loop_st n unique b rest ?s1)"
      using True r Cons.prems(1) by simp
    then show ?thesis using ins keep by (cases r) (simp_all only: if_True if_False)
  qed
qed

text \<open>The cells of the values of a dict whose cells are distinct.\<close>

lemma child_cells:
  assumes "map_opt (cells m s) (map snd kws) = Some css" "map_of kws k = Some w"
  shows "\<exists>cw. cells m s w = Some cw \<and> set cw \<subseteq> set (concat css)
           \<and> (distinct (concat css) \<longrightarrow> distinct cw)"
proof -
  have "w \<in> set (map snd kws)"
    using assms(2) by (metis map_of_SomeD set_zip_rightD zip_map_fst_snd)
  then obtain cw where "cw \<in> set css" "cells m s w = Some cw"
    using map_opt_member [OF assms(1)] by blast
  then show ?thesis
    by (auto simp: distinct_concat_iff)
qed

lemma child_cells_disjoint:
  assumes "map_opt (cells m s) (map snd kws) = Some css" "distinct (concat css)"
    and "map_of kws k = Some w" "map_of kws k' = Some w'" "k \<noteq> k'"
    and "cells m s w = Some cw" "cells m s w' = Some cw'"
  shows "set cw \<inter> set cw' = {}"
  using assms
proof (induction kws arbitrary: css)
  case Nil
  then show ?case by simp
next
  case (Cons kv kws)
  obtain k0 w0 where kv: "kv = (k0, w0)" by (cases kv)
  obtain c0 css' where css: "css = c0 # css'" "cells m s w0 = Some c0"
      "map_opt (cells m s) (map snd kws) = Some css'"
    using Cons.prems(1) by (auto simp: kv split: option.splits)
  have d: "distinct (concat css')" "set c0 \<inter> set (concat css') = {}"
    using Cons.prems(2) css(1) by auto
  show ?case
  proof (cases "k = k0")
    case True
    then have "cw = c0" using Cons.prems(3,6) css(2) by (simp add: kv)
    moreover have "map_of kws k' = Some w'"
      using Cons.prems(4,5) True by (simp add: kv)
    then have "set cw' \<subseteq> set (concat css')"
      using child_cells [OF css(3)] Cons.prems(7) by fastforce
    ultimately show ?thesis using d(2) by blast
  next
    case False
    then have k: "map_of kws k = Some w" using Cons.prems(3) by (simp add: kv)
    show ?thesis
    proof (cases "k' = k0")
      case True
      then have "cw' = c0" using Cons.prems(4,7) css(2) by (simp add: kv)
      moreover have "set cw \<subseteq> set (concat css')"
        using child_cells [OF css(3) k] Cons.prems(6) by fastforce
      ultimately show ?thesis using d(2) by blast
    next
      case False
      then have "map_of kws k' = Some w'" using Cons.prems(4) by (simp add: kv)
      then show ?thesis
        using Cons.IH [OF css(3) d(1) k _ Cons.prems(5,6,7)] by simp
    qed
  qed
qed

lemma map_of_append_absent:
  "k \<notin> fst ` set ext \<Longrightarrow> map_of (kws @ ext) k = map_of kws k"
  by (induction kws) (auto simp: map_of_eq_None_iff)

lemma merge_items_st_frame:
  fixes call :: "store \<Rightarrow> sval \<Rightarrow> sval \<Rightarrow> result"
  assumes call: "\<And>s v w ov cw. \<lbrakk>cells m s v = Some ov; cells m s w = Some cw; distinct cw;
        set ov \<inter> set cw = {}; \<forall>x\<in>set ov. keys_ok (s x)\<rbrakk>
      \<Longrightarrow> \<exists>s'. call s v w = Some (Inr s') \<and> (\<forall>x. x \<notin> set cw \<longrightarrow> s' x = s x)"
    and a: "s0 a = Some (ODict kvs)" "a \<notin> insert b (set (concat css))"
    and new: "map_opt (cells m s0) (map snd kws) = Some css" "distinct (concat css)"
      "b \<notin> set (concat css)"
    and old: "\<forall>(k, v)\<in>set rest. \<exists>ov. cells m s0 v = Some ov
        \<and> set ov \<inter> insert b (set (concat css)) = {} \<and> (\<forall>x\<in>set ov. keys_ok (s0 x))"
    and dist: "distinct (map fst rest)"
    and inv1: "\<forall>x. x \<notin> insert b (set (concat css)) \<longrightarrow> s x = s0 x"
    and inv2: "s b = Some (ODict (kws @ ext))" "fst ` set ext \<inter> fst ` set rest = {}"
    and inv3: "\<forall>k v w cw. (k, v) \<in> set rest \<and> map_of kws k = Some w \<and> cells m s0 w = Some cw
        \<longrightarrow> (\<forall>x\<in>set cw. s x = s0 x)"
  shows "\<exists>s'. merge_items_st call a b (length kvs) rest s = Some (Inr s')
          \<and> (\<forall>x. x \<notin> insert b (set (concat css)) \<longrightarrow> s' x = s0 x)"
  using old dist inv1 inv2 inv3
proof (induction rest arbitrary: s ext)
  case Nil
  have "s a = s0 a" using Nil.prems(3) a(2) by blast
  then have "dict_size s a = Some (length kvs)" using a(1) by simp
  then show ?case using Nil.prems(3) by simp
next
  case (Cons kv rest)
  obtain k v where kv: "kv = (k, v)" by (cases kv)
  let ?C = "insert b (set (concat css))"
  have sa: "s a = s0 a" using Cons.prems(3) a(2) by blast
  then have size: "dict_size s a = Some (length kvs)" using a(1) by simp
  have knew: "k \<notin> fst ` set rest" and drest: "distinct (map fst rest)"
    using Cons.prems(2) by (auto simp: kv)
  have kext: "k \<notin> fst ` set ext"
    using Cons.prems(5) by (auto simp: kv)
  have look: "map_of (kws @ ext) k = map_of kws k"
    using kext by (rule map_of_append_absent)
  have old': "\<forall>(k, v)\<in>set rest. \<exists>ov. cells m s0 v = Some ov
        \<and> set ov \<inter> ?C = {} \<and> (\<forall>x\<in>set ov. keys_ok (s0 x))"
    using Cons.prems(1) by simp
  show ?case
  proof (cases "map_of kws k")
    case None
    let ?s1 = "s(b \<mapsto> ODict ((kws @ ext) @ [(k, v)]))"
    have step: "merge_items_st call a b (length kvs) (kv # rest) s
                  = merge_items_st call a b (length kvs) rest ?s1"
      using size Cons.prems(4) look None by (simp add: kv del: map_of_append)
    have "\<exists>s'. merge_items_st call a b (length kvs) rest ?s1 = Some (Inr s')
          \<and> (\<forall>x. x \<notin> ?C \<longrightarrow> s' x = s0 x)"
    proof (rule Cons.IH [of ?s1 "ext @ [(k, v)]"])
      show "\<forall>(k, v)\<in>set rest. \<exists>ov. cells m s0 v = Some ov
        \<and> set ov \<inter> ?C = {} \<and> (\<forall>x\<in>set ov. keys_ok (s0 x))"
        by (fact old')
      show "distinct (map fst rest)" by (fact drest)
      show "\<forall>x. x \<notin> ?C \<longrightarrow> ?s1 x = s0 x"
        using Cons.prems(3) by simp
      show "?s1 b = Some (ODict (kws @ ext @ [(k, v)]))" by simp
      show "fst ` set (ext @ [(k, v)]) \<inter> fst ` set rest = {}"
        using Cons.prems(5) knew by (auto simp: kv)
      show "\<forall>k' v' w cw. (k', v') \<in> set rest \<and> map_of kws k' = Some w \<and> cells m s0 w = Some cw
        \<longrightarrow> (\<forall>x\<in>set cw. ?s1 x = s0 x)"
      proof (intro allI impI ballI)
        fix k' v' w cw x
        assume h: "(k', v') \<in> set rest \<and> map_of kws k' = Some w \<and> cells m s0 w = Some cw"
          and x: "x \<in> set cw"
        have "set cw \<subseteq> set (concat css)"
          using child_cells [OF new(1), of k' w] h by auto
        then have "x \<noteq> b" using x new(3) by blast
        moreover have "s x = s0 x"
          using Cons.prems(6) h x by (meson list.set_intros(2))
        ultimately show "?s1 x = s0 x" by simp
      qed
    qed
    then show ?thesis using step by (simp only:)
  next
    case (Some w)
    obtain cw where cw: "cells m s0 w = Some cw" "set cw \<subseteq> set (concat css)" "distinct cw"
      using child_cells [OF new(1) Some] new(2) by blast
    obtain ov where ov: "cells m s0 v = Some ov" "set ov \<inter> ?C = {}" "\<forall>x\<in>set ov. keys_ok (s0 x)"
      using Cons.prems(1) by (auto simp: kv)
    have "(k, v) \<in> set (kv # rest) \<and> map_of kws k = Some w \<and> cells m s0 w = Some cw"
      using Some cw(1) by (simp add: kv)
    then have "\<forall>x\<in>set cw. s x = s0 x"
      using Cons.prems(6) by blast
    then have cw_s: "cells m s w = Some cw"
      by (intro cells_cong [OF cw(1)]) simp
    have ov_eq: "\<forall>x\<in>set ov. s x = s0 x"
      using Cons.prems(3) ov(2) by blast
    then have ov_s: "cells m s v = Some ov"
      by (intro cells_cong [OF ov(1)]) simp
    have "set ov \<inter> set cw = {}"
      using ov(2) cw(2) by blast
    moreover have "\<forall>x\<in>set ov. keys_ok (s x)"
      using ov(3) ov_eq by simp
    ultimately obtain s' where s': "call s v w = Some (Inr s')" "\<forall>x. x \<notin> set cw \<longrightarrow> s' x = s x"
      using call [OF ov_s cw_s cw(3)] by blast
    have step: "merge_items_st call a b (length kvs) (kv # rest) s
                  = merge_items_st call a b (length kvs) rest s'"
      using size Cons.prems(4) look Some s'(1) by (simp add: kv del: map_of_append)
    have "\<exists>s''. merge_items_st call a b (length kvs) rest s' = Some (Inr s'')
          \<and> (\<forall>x. x \<notin> ?C \<longrightarrow> s'' x = s0 x)"
    proof (rule Cons.IH [of s' ext])
      show "\<forall>(k, v)\<in>set rest. \<exists>ov. cells m s0 v = Some ov
        \<and> set ov \<inter> ?C = {} \<and> (\<forall>x\<in>set ov. keys_ok (s0 x))"
        by (fact old')
      show "distinct (map fst rest)" by (fact drest)
      show "\<forall>x. x \<notin> ?C \<longrightarrow> s' x = s0 x"
      proof (intro allI impI)
        fix x
        assume x: "x \<notin> ?C"
        then have "x \<notin> set cw" using cw(2) by blast
        then have "s' x = s x" using s'(2) by blast
        then show "s' x = s0 x" using Cons.prems(3) x by simp
      qed
      have "b \<notin> set cw" using cw(2) new(3) by blast
      then show "s' b = Some (ODict (kws @ ext))"
        using s'(2) Cons.prems(4) by simp
      show "fst ` set ext \<inter> fst ` set rest = {}"
        using Cons.prems(5) by auto
      show "\<forall>k' v' w' cw'. (k', v') \<in> set rest \<and> map_of kws k' = Some w' \<and> cells m s0 w' = Some cw'
        \<longrightarrow> (\<forall>x\<in>set cw'. s' x = s0 x)"
      proof (intro allI impI ballI)
        fix k' v' w' cw' x
        assume h: "(k', v') \<in> set rest \<and> map_of kws k' = Some w' \<and> cells m s0 w' = Some cw'"
          and x: "x \<in> set cw'"
        have "k \<noteq> k'" using knew h by force
        then have "set cw \<inter> set cw' = {}"
          using child_cells_disjoint [OF new(1,2) Some _ _ cw(1)] h by blast
        then have "x \<notin> set cw" using x by blast
        moreover have "s x = s0 x"
          using Cons.prems(6) h x by (meson list.set_intros(2))
        ultimately show "s' x = s0 x" using s'(2) by simp
      qed
    qed
    then show ?thesis using step by (simp only:)
  qed
qed

lemma slot_cells:
  assumes "map_opt (cells m s) xs = Some css" "v \<in> set xs"
  shows "\<exists>c. cells m s v = Some c \<and> set c \<subseteq> set (concat css)"
  using map_opt_member [OF assms] by auto

lemma object_merge_st_frame:
  assumes "cells n s old = Some os" "cells n s new = Some cs" "distinct cs"
    and "set os \<inter> set cs = {}" "\<forall>x\<in>set os. keys_ok (s x)"
  shows "\<exists>s'. object_merge_st (Suc n) s old new unique = Some (Inr s')
          \<and> (\<forall>x. x \<notin> set cs \<longrightarrow> s' x = s x)"
  using assms
proof (induction n arbitrary: s old new unique os cs)
  case 0
  then show ?case by (cases old; cases new) auto
next
  case (Suc m)
  show ?case
  proof (cases old)
    case (SRef a)
    show ?thesis
    proof (cases new)
      case new: (SRef b)
      obtain oa ass where oa: "s a = Some oa" "map_opt (cells m s) (slots oa) = Some ass"
          "os = a # concat ass"
        using Suc.prems(1) [unfolded SRef cells_ref_Suc] by blast
      obtain ob css where ob: "s b = Some ob" "map_opt (cells m s) (slots ob) = Some css"
          "cs = b # concat css"
        using Suc.prems(2) [unfolded new cells_ref_Suc] by blast
      have dcss: "distinct (concat css)" "b \<notin> set (concat css)"
        using Suc.prems(3) ob(3) by auto
      have a_out: "a \<notin> insert b (set (concat css))"
        using Suc.prems(4) oa(3) ob(3) by auto
      have old_slot: "\<exists>c. cells m s v = Some c \<and> set c \<inter> insert b (set (concat css)) = {}
          \<and> (\<forall>x\<in>set c. keys_ok (s x))" if v: "v \<in> set (slots oa)" for v
      proof -
        obtain c where c: "cells m s v = Some c" "set c \<subseteq> set (concat ass)"
          using slot_cells [OF oa(2) v] by blast
        then have "set c \<subseteq> set os" using oa(3) by auto
        then show ?thesis
          using c(1) Suc.prems(4,5) ob(3) by (intro exI [of _ c]) auto
      qed
      show ?thesis
      proof (cases oa)
        case oaL: (OList xs)
        show ?thesis
        proof (cases ob)
          case (OList ys)
          have "cells (Suc (Suc m)) s old = Some os" "cells (Suc (Suc m)) s new = Some cs"
            by (rule cells_mono, fact Suc.prems(1)) (rule cells_mono, fact Suc.prems(2))
          then obtain r where r: "store_eq (Suc (Suc m)) s old new = Some r"
            using store_eq_defined by blast
          have "\<forall>v\<in>set (rev xs) \<union> set ys. \<exists>c. cells (Suc m) s v = Some c \<and> b \<notin> set c"
          proof
            fix v
            assume "v \<in> set (rev xs) \<union> set ys"
            then consider "v \<in> set (slots oa)" | "v \<in> set (slots ob)"
              using oaL OList by auto
            then show "\<exists>c. cells (Suc m) s v = Some c \<and> b \<notin> set c"
            proof cases
              case 1
              then obtain c where "cells m s v = Some c" "set c \<inter> insert b (set (concat css)) = {}"
                using old_slot by blast
              then show ?thesis using cells_mono [of m s v c] by (intro exI [of _ c]) auto
            next
              case 2
              then obtain c where "cells m s v = Some c" "set c \<subseteq> set (concat css)"
                using slot_cells [OF ob(2)] by blast
              then show ?thesis using dcss(2) cells_mono [of m s v c] by (intro exI [of _ c]) auto
            qed
          qed
          then obtain zs where zs: "insert_loop_st (Suc m) unique b (rev xs) s
              = Some (Inr (s(b \<mapsto> OList zs)))"
            using insert_loop_st_frame [of s b ys "rev xs" "Suc m" unique] ob(1) OList by blast
          have "object_merge_st (Suc (Suc m)) s old new unique
                  = (if r then Some (Inr s) else Some (Inr (s(b \<mapsto> OList zs))))"
            using SRef new oa(1) ob(1) oaL OList r zs by (cases r) simp_all
          then show ?thesis
            using ob(3) by (cases r) auto
        next
          case (ODict kws)
          then show ?thesis
            using SRef new oa(1) ob(1) oaL by simp
        qed
      next
        case oaD: (ODict kvs)
        show ?thesis
        proof (cases ob)
          case (OList ys)
          then show ?thesis
            using SRef new oa(1) ob(1) oaD by simp
        next
          case (ODict kws)
          let ?call = "\<lambda>s' value w. object_merge_st (Suc m) s' value w False"
          have "\<exists>s'. merge_items_st ?call a b (length kvs) kvs s = Some (Inr s')
                  \<and> (\<forall>x. x \<notin> insert b (set (concat css)) \<longrightarrow> s' x = s x)"
          proof (rule merge_items_st_frame [where m = m and kws = kws and ext = "[]"])
            show "\<exists>s'. ?call s v w = Some (Inr s') \<and> (\<forall>x. x \<notin> set cw \<longrightarrow> s' x = s x)"
              if "cells m s v = Some ov" "cells m s w = Some cw" "distinct cw"
                "set ov \<inter> set cw = {}" "\<forall>x\<in>set ov. keys_ok (s x)" for s v w ov cw
              using Suc.IH [OF that] by simp
            show "s a = Some (ODict kvs)" using oa(1) oaD by simp
            show "a \<notin> insert b (set (concat css))" by (fact a_out)
            show "map_opt (cells m s) (map snd kws) = Some css" using ob(2) ODict by simp
            show "distinct (concat css)" "b \<notin> set (concat css)" by (fact dcss)+
            show "\<forall>(k, v)\<in>set kvs. \<exists>ov. cells m s v = Some ov
                \<and> set ov \<inter> insert b (set (concat css)) = {} \<and> (\<forall>x\<in>set ov. keys_ok (s x))"
              using old_slot oaD by force
            have "a \<in> set os" using oa(3) by simp
            then show "distinct (map fst kvs)"
              using Suc.prems(5) oa(1) oaD by force
            show "\<forall>x. x \<notin> insert b (set (concat css)) \<longrightarrow> s x = s x" by simp
            show "s b = Some (ODict (kws @ []))" using ob(1) ODict by simp
            show "fst ` set [] \<inter> fst ` set kvs = {}" by simp
            show "\<forall>k v w cw. (k, v) \<in> set kvs \<and> map_of kws k = Some w \<and> cells m s w = Some cw
                \<longrightarrow> (\<forall>x\<in>set cw. s x = s x)" by simp
          qed
          moreover have "object_merge_st (Suc (Suc m)) s old new unique
              = merge_items_st ?call a b (length kvs) kvs s"
            using SRef new oa(1) ob(1) oaD ODict by simp
          ultimately show ?thesis
            using ob(3) by (simp only: list.set)
        qed
      qed
    qed (use SRef in auto)
  qed auto
qed

section \<open>The values in the store after a call\<close>

text \<open>
  On a store where \<open>old\<close> and \<open>new\<close> are finite, share no object and \<open>new\<close> holds no
  object twice, the call on the store ends normally and leaves in \<open>new\<close> the value that
  \<open>object_merge\<close> on values computes from the values of \<open>old\<close> and \<open>new\<close>
  (\<open>object_merge_st_refines\<close> below): the properties of \<open>object_merge\<close> on values are
  properties of what the call leaves in such a store.
\<close>

lemma value_of_mono: "value_of n s v = Some p \<Longrightarrow> value_of (Suc n) s v = Some p"
proof (induction n arbitrary: v p)
  case 0
  then show ?case by (cases v) auto
next
  case (Suc n)
  show ?case
  proof (cases v)
    case (SRef a)
    then obtain ob where ob: "s a = Some ob"
      using Suc.prems by (auto split: option.splits)
    show ?thesis
    proof (cases ob)
      case (OList xs)
      then obtain ps where ps: "map_opt (value_of n s) xs = Some ps" "p = PList ps"
        using Suc.prems SRef ob by auto
      have "list_all2 (\<lambda>x y. value_of (Suc n) s x = Some y) xs ps"
        using ps(1) Suc.IH by (auto simp: map_opt_Some_iff elim: list_all2_mono)
      then have "map_opt (value_of (Suc n) s) xs = Some ps"
        by (simp add: map_opt_Some_iff)
      then show ?thesis
        using SRef ob OList ps(2) by (simp del: value_of.simps(2) add: value_of.simps(2) [of "Suc n"])
    next
      case (ODict kvs)
      then obtain ps where ps: "dict_vals (value_of n s) kvs = Some ps" "p = PDict ps"
        using Suc.prems SRef ob by auto
      have "dict_vals (value_of (Suc n) s) kvs = Some ps"
        using ps(1)
      proof (induction kvs arbitrary: ps)
        case Nil
        then show ?case by simp
      next
        case (Cons kx kvs)
        obtain k x where kx: "kx = (k, x)" by (cases kx)
        obtain q qs where q: "value_of n s x = Some q" "dict_vals (value_of n s) kvs = Some qs"
            "ps = (k, q) # qs"
          using Cons.prems by (auto simp: kx split: option.splits)
        have "value_of (Suc n) s x = Some q" using q(1) Suc.IH by blast
        moreover have "dict_vals (value_of (Suc n) s) kvs = Some qs"
          using Cons.IH q(2) by blast
        ultimately show ?case using q(3) by (simp add: kx del: value_of.simps(2))
      qed
      then show ?thesis
        using SRef ob ODict ps(2) by (simp del: value_of.simps(2) add: value_of.simps(2) [of "Suc n"])
    qed
  qed (use Suc.prems in auto)
qed

lemma value_of_depth:
  assumes "value_of (Suc n) s v = Some p" "cells n s v = Some c"
  shows "value_of n s v = Some p"
proof -
  obtain q where q: "value_of n s v = Some q"
    using value_of_defined [OF assms(2)] by blast
  then have "value_of (Suc n) s v = Some q" by (rule value_of_mono)
  then show ?thesis using assms(1) q by simp
qed

lemma store_in_py_in:
  assumes "value_of n s item = Some p" "map_opt (value_of n s) ys = Some ps"
  shows "store_in n s item ys = Some (py_in p ps)"
  using assms(2)
proof (induction ys arbitrary: ps)
  case Nil
  then show ?case by simp
next
  case (Cons e es)
  obtain q qs where q: "value_of n s e = Some q" "map_opt (value_of n s) es = Some qs" "ps = q # qs"
    using Cons.prems by (auto split: option.splits)
  have "store_eq n s item e = Some (py_eq p q)"
    using assms(1) q(1) by (simp add: store_eq_def)
  then show ?case
    using Cons.IH [OF q(2)] q(3) by (cases "py_eq p q") simp_all
qed

lemma dict_vals_keys: "dict_vals f L = Some P \<Longrightarrow> map fst P = map fst L"
  by (induction L arbitrary: P) (auto split: option.splits)

lemma dict_vals_member:
  "dict_vals f L = Some P \<Longrightarrow> (k, x) \<in> set L \<Longrightarrow> \<exists>p. f x = Some p"
  by (induction L arbitrary: P) (auto split: option.splits)

lemma dict_vals_map_of_Some:
  "dict_vals f L = Some P \<Longrightarrow> map_of L k = Some w \<Longrightarrow> \<exists>p. f w = Some p \<and> map_of P k = Some p"
  by (induction L arbitrary: P) (auto split: option.splits if_splits)

lemma dict_vals_map_of_None:
  "dict_vals f L = Some P \<Longrightarrow> map_of L k = None \<Longrightarrow> map_of P k = None"
  by (induction L arbitrary: P) (auto split: option.splits if_splits)

lemma dict_vals_snoc:
  "dict_vals f L = Some P \<Longrightarrow> f x = Some p \<Longrightarrow> dict_vals f (L @ [(k, x)]) = Some (P @ [(k, p)])"
  by (induction L arbitrary: P) (auto split: option.splits)

lemma dict_vals_set_item:
  assumes "dict_vals f L = Some P" "distinct (map fst L)" "map_of L k = Some w" "g w = Some mv"
    and "\<forall>(k', x)\<in>set L. k' \<noteq> k \<longrightarrow> g x = f x"
  shows "dict_vals g L = Some (set_item k mv P)"
  using assms
proof (induction L arbitrary: P)
  case Nil
  then show ?case by simp
next
  case (Cons kx L)
  obtain k0 x0 where kx: "kx = (k0, x0)" by (cases kx)
  obtain q qs where q: "f x0 = Some q" "dict_vals f L = Some qs" "P = (k0, q) # qs"
    using Cons.prems(1) by (auto simp: kx split: option.splits)
  show ?case
  proof (cases "k0 = k")
    case True
    then have w: "x0 = w" using Cons.prems(3) by (simp add: kx)
    have "k \<notin> fst ` set L" using Cons.prems(2) True by (simp add: kx)
    then have "\<forall>x\<in>set (map snd L). g x = f x"
      using Cons.prems(5) by (force simp: kx)
    then have "dict_vals g L = dict_vals f L"
      by (intro dict_vals_cong) blast
    then show ?thesis
      using True w q Cons.prems(4) by (simp add: kx)
  next
    case False
    then have "g x0 = f x0" using Cons.prems(5) by (simp add: kx)
    moreover have "dict_vals g L = Some (set_item k mv qs)"
      using Cons.prems False by (intro Cons.IH [OF q(2)]) (auto simp: kx)
    ultimately show ?thesis
      using False q by (simp add: kx)
  qed
qed

lemma value_of_upd_other:
  assumes "cells n s v = Some c" "b \<notin> set c"
  shows "value_of n (s(b \<mapsto> ob)) v = value_of n s v"
  by (rule value_of_cong [OF assms(1)]) (use assms(2) in auto)

lemma cells_upd_other:
  assumes "cells n s v = Some c" "b \<notin> set c"
  shows "cells n (s(b \<mapsto> ob)) v = Some c"
  by (rule cells_cong [OF assms(1)]) (use assms(2) in auto)

lemma insert_loop_st_refines:
  assumes "s b = Some (OList ys)"
    and "\<forall>v\<in>set xs \<union> set ys. \<exists>c. cells n s v = Some c \<and> b \<notin> set c"
    and "map_opt (value_of n s) xs = Some pxs" "map_opt (value_of n s) ys = Some pys"
  shows "\<exists>zs. insert_loop_st n unique b xs s = Some (Inr (s(b \<mapsto> OList zs)))
          \<and> map_opt (value_of n s) zs = Some (insert_loop unique pxs pys)
          \<and> set zs \<subseteq> set xs \<union> set ys"
  using assms
proof (induction xs arbitrary: s ys pxs pys)
  case Nil
  have "s(b \<mapsto> OList ys) = s"
    using Nil.prems(1) by (simp add: fun_upd_idem)
  then show ?case
    using Nil.prems(3,4) by (intro exI [of _ ys]) simp
next
  case (Cons item rest)
  let ?s1 = "s(b \<mapsto> OList (item # ys))"
  obtain px prest where px: "value_of n s item = Some px"
      "map_opt (value_of n s) rest = Some prest" "pxs = px # prest"
    using Cons.prems(3) by (auto split: option.splits)
  have others: "\<forall>v\<in>set rest \<union> set ys. \<exists>c. cells n s v = Some c \<and> b \<notin> set c"
    using Cons.prems(2) by auto
  have keep: "\<exists>zs. insert_loop_st n unique b rest s = Some (Inr (s(b \<mapsto> OList zs)))
          \<and> map_opt (value_of n s) zs = Some (insert_loop unique prest pys)
          \<and> set zs \<subseteq> set rest \<union> set ys"
    by (rule Cons.IH [OF Cons.prems(1) others px(2) Cons.prems(4)])
  have old_cells: "\<exists>c. cells n s v = Some c \<and> b \<notin> set c"
    if "v \<in> set (item # rest) \<union> set ys" for v
    using Cons.prems(2) that by blast
  have sval: "value_of n ?s1 v = value_of n s v"
    if v: "v \<in> set (item # rest) \<union> set ys" for v
  proof -
    obtain c where c: "cells n s v = Some c" "b \<notin> set c"
      using old_cells [OF v] by blast
    show ?thesis
      by (rule value_of_upd_other [OF c])
  qed
  have scell: "\<exists>c. cells n ?s1 v = Some c \<and> b \<notin> set c"
    if v: "v \<in> set (item # rest) \<union> set ys" for v
  proof -
    obtain c where c: "cells n s v = Some c" "b \<notin> set c"
      using old_cells [OF v] by blast
    have "cells n ?s1 v = Some c"
      by (rule cells_upd_other [OF c])
    then show ?thesis using c(2) by blast
  qed
  have "\<exists>zs. insert_loop_st n unique b rest ?s1 = Some (Inr (?s1(b \<mapsto> OList zs)))
          \<and> map_opt (value_of n ?s1) zs = Some (insert_loop unique prest (px # pys))
          \<and> set zs \<subseteq> set rest \<union> set (item # ys)"
  proof (rule Cons.IH [of ?s1 "item # ys"])
    show "?s1 b = Some (OList (item # ys))" by simp
    show "\<forall>v\<in>set rest \<union> set (item # ys). \<exists>c. cells n ?s1 v = Some c \<and> b \<notin> set c"
    proof
      fix v
      assume "v \<in> set rest \<union> set (item # ys)"
      then have "v \<in> set (item # rest) \<union> set ys" by auto
      then show "\<exists>c. cells n ?s1 v = Some c \<and> b \<notin> set c" by (rule scell)
    qed
    have "map_opt (value_of n ?s1) rest = map_opt (value_of n s) rest"
      by (rule map_opt_cong, rule sval) simp
    then show "map_opt (value_of n ?s1) rest = Some prest"
      using px(2) by simp
    have "map_opt (value_of n ?s1) (item # ys) = map_opt (value_of n s) (item # ys)"
      by (rule map_opt_cong, rule sval) auto
    then show "map_opt (value_of n ?s1) (item # ys) = Some (px # pys)"
      using px(1) Cons.prems(4) by simp
  qed
  then obtain zs where zs: "insert_loop_st n unique b rest ?s1 = Some (Inr (?s1(b \<mapsto> OList zs)))"
      "map_opt (value_of n ?s1) zs = Some (insert_loop unique prest (px # pys))"
      "set zs \<subseteq> set rest \<union> set (item # ys)"
    by blast
  have "map_opt (value_of n ?s1) zs = map_opt (value_of n s) zs"
    by (rule map_opt_cong, rule sval) (use zs(3) in auto)
  then have ins: "insert_loop_st n unique b rest ?s1 = Some (Inr (s(b \<mapsto> OList zs)))
      \<and> map_opt (value_of n s) zs = Some (insert_loop unique prest (px # pys))
      \<and> set zs \<subseteq> set (item # rest) \<union> set ys"
    using zs by auto
  show ?case
  proof (cases unique)
    case False
    have "insert_loop_st n unique b (item # rest) s = insert_loop_st n unique b rest ?s1"
      using False Cons.prems(1) by simp
    moreover have "insert_loop unique pxs pys = insert_loop unique prest (px # pys)"
      using False px(3) by simp
    ultimately show ?thesis using ins by (intro exI [of _ zs]) (simp only:)
  next
    case True
    have r: "store_in n s item ys = Some (py_in px pys)"
      by (rule store_in_py_in [OF px(1) Cons.prems(4)])
    show ?thesis
    proof (cases "py_in px pys")
      case inn: True
      have "insert_loop_st n unique b (item # rest) s = insert_loop_st n unique b rest s"
        using True r inn Cons.prems(1) by simp
      moreover have "insert_loop unique pxs pys = insert_loop unique prest pys"
        using True inn px(3) by simp
      moreover obtain zs' where "insert_loop_st n unique b rest s = Some (Inr (s(b \<mapsto> OList zs')))"
          "map_opt (value_of n s) zs' = Some (insert_loop unique prest pys)"
          "set zs' \<subseteq> set rest \<union> set ys"
        using keep by blast
      ultimately show ?thesis
        by (intro exI [of _ zs']) (auto simp only: list.set)
    next
      case out: False
      have "insert_loop_st n unique b (item # rest) s = insert_loop_st n unique b rest ?s1"
        using True r out Cons.prems(1) by simp
      moreover have "insert_loop unique pxs pys = insert_loop unique prest (px # pys)"
        using True out px(3) by simp
      ultimately show ?thesis using ins by (intro exI [of _ zs]) (simp only:)
    qed
  qed
qed

lemma merge_items_st_refines:
  fixes call :: "store \<Rightarrow> sval \<Rightarrow> sval \<Rightarrow> result"
  assumes call: "\<And>s v w ov cw pv pw. \<lbrakk>cells m s v = Some ov; cells m s w = Some cw; distinct cw;
        set ov \<inter> set cw = {}; \<forall>x\<in>set ov \<union> set cw. keys_ok (s x);
        value_of m s v = Some pv; value_of m s w = Some pw\<rbrakk>
      \<Longrightarrow> \<exists>s' cw'. call s v w = Some (Inr s') \<and> (\<forall>x. x \<notin> set cw \<longrightarrow> s' x = s x)
            \<and> cells m s' w = Some cw' \<and> set cw' \<subseteq> set cw \<union> set ov
            \<and> value_of m s' w = Some (object_merge pv pw False)"
    and a: "s0 a = Some (ODict kvs)" "a \<notin> insert b (set (concat css))"
    and new: "map_opt (cells m s0) (map snd kws) = Some css" "distinct (concat css)"
      "b \<notin> set (concat css)" "\<forall>x\<in>set (concat css). keys_ok (s0 x)"
    and U: "U \<inter> insert b (set (concat css)) = {}"
    and old: "\<forall>(k, v)\<in>set rest. \<exists>ov. cells m s0 v = Some ov \<and> set ov \<subseteq> U
        \<and> (\<forall>x\<in>set ov. keys_ok (s0 x))"
    and prest: "dict_vals (value_of m s0) rest = Some prest"
    and dist: "distinct (map fst rest)"
    and inv1: "\<forall>x. x \<notin> insert b (set (concat css)) \<longrightarrow> s x = s0 x"
    and inv2: "s b = Some (ODict (kws @ ext))" "fst ` set ext \<inter> fst ` set rest = {}"
      "distinct (map fst (kws @ ext))"
    and inv3: "\<forall>k v w cw. (k, v) \<in> set rest \<and> map_of kws k = Some w \<and> cells m s0 w = Some cw
        \<longrightarrow> (\<forall>x\<in>set cw. s x = s0 x)"
    and inv4: "\<forall>(k, x)\<in>set (kws @ ext). \<exists>cx. cells m s x = Some cx
        \<and> set cx \<subseteq> U \<union> set (concat css)
        \<and> (\<forall>k' w' cw'. k' \<noteq> k \<and> map_of kws k' = Some w' \<and> cells m s0 w' = Some cw'
              \<longrightarrow> set cx \<inter> set cw' = {})"
    and inv5: "dict_vals (value_of m s) (kws @ ext) = Some cur"
  shows "\<exists>s' L. merge_items_st call a b (length kvs) rest s = Some (Inr s')
          \<and> (\<forall>x. x \<notin> insert b (set (concat css)) \<longrightarrow> s' x = s0 x)
          \<and> s' b = Some (ODict L)
          \<and> dict_vals (value_of m s') L = Some (merge_items prest cur)
          \<and> (\<forall>(k, x)\<in>set L. \<exists>cx. cells m s' x = Some cx \<and> set cx \<subseteq> U \<union> set (concat css))"
  using old prest dist inv1 inv2 inv3 inv4 inv5
proof (induction rest arbitrary: s ext cur prest)
  case Nil
  have "s a = s0 a" using Nil.prems(4) a(2) by blast
  then have "dict_size s a = Some (length kvs)" using a(1) by simp
  then have "merge_items_st call a b (length kvs) [] s = Some (Inr s)" by simp
  moreover have "prest = []" using Nil.prems(2) by simp
  moreover have "\<forall>(k, x)\<in>set (kws @ ext). \<exists>cx. cells m s x = Some cx \<and> set cx \<subseteq> U \<union> set (concat css)"
    using Nil.prems(9) by fast
  ultimately show ?case
    using Nil.prems(4,5,10) by (intro exI [of _ s] exI [of _ "kws @ ext"]) simp
next
  case (Cons kv rest)
  obtain k v where kv: "kv = (k, v)" by (cases kv)
  let ?C = "insert b (set (concat css))"
  let ?L = "kws @ ext"
  have sa: "s a = s0 a" using Cons.prems(4) a(2) by blast
  then have size: "dict_size s a = Some (length kvs)" using a(1) by simp
  have knew: "k \<notin> fst ` set rest" and drest: "distinct (map fst rest)"
    using Cons.prems(3) by (auto simp: kv)
  have kext: "k \<notin> fst ` set ext"
    using Cons.prems(6) by (auto simp: kv)
  have look: "map_of ?L k = map_of kws k"
    using kext by (rule map_of_append_absent)
  have old': "\<forall>(k, v)\<in>set rest. \<exists>ov. cells m s0 v = Some ov \<and> set ov \<subseteq> U
        \<and> (\<forall>x\<in>set ov. keys_ok (s0 x))"
    using Cons.prems(1) by simp
  obtain pv prest' where pv: "value_of m s0 v = Some pv" "dict_vals (value_of m s0) rest = Some prest'"
      "prest = (k, pv) # prest'"
    using Cons.prems(2) by (auto simp: kv split: option.splits)
  obtain ov where ov: "cells m s0 v = Some ov" "set ov \<subseteq> U" "\<forall>x\<in>set ov. keys_ok (s0 x)"
    using Cons.prems(1) by (auto simp: kv)
  have ov_eq: "\<forall>x\<in>set ov. s x = s0 x"
    using Cons.prems(4) ov(2) U by blast
  then have ov_s: "cells m s v = Some ov"
    by (intro cells_cong [OF ov(1)]) simp
  have pv_s: "value_of m s v = Some pv"
    using value_of_cong [OF ov(1), of s] ov_eq pv(1) by simp
  have bU: "b \<notin> U" using U by blast
  have item_cells: "\<exists>cx. cells m s x = Some cx \<and> set cx \<subseteq> U \<union> set (concat css)
        \<and> (\<forall>k' w' cw'. k' \<noteq> k1 \<and> map_of kws k' = Some w' \<and> cells m s0 w' = Some cw'
              \<longrightarrow> set cx \<inter> set cw' = {})" if "(k1, x) \<in> set ?L" for k1 x
    using Cons.prems(9) that by fast
  show ?case
  proof (cases "map_of kws k")
    case None
    let ?s1 = "s(b \<mapsto> ODict (?L @ [(k, v)]))"
    have step: "merge_items_st call a b (length kvs) (kv # rest) s
                  = merge_items_st call a b (length kvs) rest ?s1"
      using size Cons.prems(5) look None by (simp add: kv del: map_of_append)
    have curk: "map_of cur k = None"
      using dict_vals_map_of_None [OF Cons.prems(10)] look None by simp
    have val: "merge_items prest cur = merge_items prest' (cur @ [(k, pv)])"
      using pv(3) curk by (simp add: set_item_absent)
    have notb: "b \<notin> set cx" if "set cx \<subseteq> U \<union> set (concat css)" for cx
      using that bU new(3) by blast
    have "\<exists>s' L. merge_items_st call a b (length kvs) rest ?s1 = Some (Inr s')
          \<and> (\<forall>x. x \<notin> ?C \<longrightarrow> s' x = s0 x)
          \<and> s' b = Some (ODict L)
          \<and> dict_vals (value_of m s') L = Some (merge_items prest' (cur @ [(k, pv)]))
          \<and> (\<forall>(k, x)\<in>set L. \<exists>cx. cells m s' x = Some cx \<and> set cx \<subseteq> U \<union> set (concat css))"
    proof (rule Cons.IH [of prest' ?s1 "ext @ [(k, v)]"])
      show "\<forall>(k, v)\<in>set rest. \<exists>ov. cells m s0 v = Some ov \<and> set ov \<subseteq> U
        \<and> (\<forall>x\<in>set ov. keys_ok (s0 x))"
        by (fact old')
      show "dict_vals (value_of m s0) rest = Some prest'" by (fact pv(2))
      show "distinct (map fst rest)" by (fact drest)
      show "\<forall>x. x \<notin> ?C \<longrightarrow> ?s1 x = s0 x"
        using Cons.prems(4) by simp
      show "?s1 b = Some (ODict (kws @ ext @ [(k, v)]))" by simp
      show "fst ` set (ext @ [(k, v)]) \<inter> fst ` set rest = {}"
        using Cons.prems(6) knew by (auto simp: kv)
      have "k \<notin> fst ` set kws"
        using None by (simp add: map_of_eq_None_iff)
      then show "distinct (map fst (kws @ ext @ [(k, v)]))"
        using Cons.prems(7) kext by auto
      show "\<forall>k' v' w cw. (k', v') \<in> set rest \<and> map_of kws k' = Some w \<and> cells m s0 w = Some cw
        \<longrightarrow> (\<forall>x\<in>set cw. ?s1 x = s0 x)"
      proof (intro allI impI ballI)
        fix k' v' w cw x
        assume h: "(k', v') \<in> set rest \<and> map_of kws k' = Some w \<and> cells m s0 w = Some cw"
          and x: "x \<in> set cw"
        have "set cw \<subseteq> set (concat css)"
          using child_cells [OF new(1), of k' w] h by auto
        then have "x \<noteq> b" using x new(3) by blast
        moreover have "s x = s0 x"
          using Cons.prems(8) h x by (meson list.set_intros(2))
        ultimately show "?s1 x = s0 x" by simp
      qed
      show "\<forall>(k1, x)\<in>set (kws @ ext @ [(k, v)]). \<exists>cx. cells m ?s1 x = Some cx
        \<and> set cx \<subseteq> U \<union> set (concat css)
        \<and> (\<forall>k' w' cw'. k' \<noteq> k1 \<and> map_of kws k' = Some w' \<and> cells m s0 w' = Some cw'
              \<longrightarrow> set cx \<inter> set cw' = {})"
      proof (intro ballI, clarify)
        fix k1 x
        assume "(k1, x) \<in> set (kws @ ext @ [(k, v)])"
        then consider "(k1, x) \<in> set ?L" | "k1 = k" "x = v" by auto
        then show "\<exists>cx. cells m ?s1 x = Some cx
          \<and> set cx \<subseteq> U \<union> set (concat css)
          \<and> (\<forall>k' w' cw'. k' \<noteq> k1 \<and> map_of kws k' = Some w' \<and> cells m s0 w' = Some cw'
                \<longrightarrow> set cx \<inter> set cw' = {})"
        proof cases
          case 1
          then obtain cx where cx: "cells m s x = Some cx" "set cx \<subseteq> U \<union> set (concat css)"
            "\<forall>k' w' cw'. k' \<noteq> k1 \<and> map_of kws k' = Some w' \<and> cells m s0 w' = Some cw'
                \<longrightarrow> set cx \<inter> set cw' = {}"
            using item_cells by blast
          have "cells m ?s1 x = Some cx"
            by (rule cells_upd_other [OF cx(1) notb [OF cx(2)]])
          then show ?thesis using cx(2,3) by blast
        next
          case 2
          have "cells m ?s1 v = Some ov"
            by (rule cells_upd_other [OF ov_s]) (use ov(2) bU in blast)
          moreover have "set ov \<inter> set cw' = {}"
            if "map_of kws k' = Some w'" "cells m s0 w' = Some cw'" for k' w' cw'
          proof -
            have "set cw' \<subseteq> set (concat css)"
              using child_cells [OF new(1) that(1)] that(2) by auto
            then show ?thesis using ov(2) U by blast
          qed
          ultimately show ?thesis using ov(2) 2 by blast
        qed
      qed
      have "dict_vals (value_of m ?s1) ?L = dict_vals (value_of m s) ?L"
      proof (rule dict_vals_cong)
        fix x
        assume "x \<in> set (map snd ?L)"
        then obtain k1 where "(k1, x) \<in> set ?L" by fastforce
        then obtain cx where cx: "cells m s x = Some cx" "set cx \<subseteq> U \<union> set (concat css)"
          using item_cells by blast
        show "value_of m ?s1 x = value_of m s x"
          by (rule value_of_upd_other [OF cx(1) notb [OF cx(2)]])
      qed
      moreover have "value_of m ?s1 v = Some pv"
        using value_of_upd_other [OF ov_s, of b] ov(2) bU pv_s by auto
      ultimately have "dict_vals (value_of m ?s1) (?L @ [(k, v)]) = Some (cur @ [(k, pv)])"
        using Cons.prems(10) by (intro dict_vals_snoc) simp_all
      then show "dict_vals (value_of m ?s1) (kws @ ext @ [(k, v)]) = Some (cur @ [(k, pv)])"
        by simp
    qed
    then show ?thesis using step val by (simp only:)
  next
    case (Some w)
    have inL: "(k, w) \<in> set ?L"
      using Some by (auto dest: map_of_SomeD)
    obtain cw where cw: "cells m s0 w = Some cw" "set cw \<subseteq> set (concat css)" "distinct cw"
      using child_cells [OF new(1) Some] new(2) by blast
    have "(k, v) \<in> set (kv # rest) \<and> map_of kws k = Some w \<and> cells m s0 w = Some cw"
      using Some cw(1) by (simp add: kv)
    then have cw_eq: "\<forall>x\<in>set cw. s x = s0 x"
      using Cons.prems(8) by blast
    then have cw_s: "cells m s w = Some cw"
      by (intro cells_cong [OF cw(1)]) simp
    have disj: "set ov \<inter> set cw = {}"
      using ov(2) cw(2) U by blast
    have keys: "\<forall>x\<in>set ov \<union> set cw. keys_ok (s x)"
      using ov(3) ov_eq cw_eq cw(2) new(4) by auto
    obtain pw where pw: "value_of m s w = Some pw" "map_of cur k = Some pw"
      using dict_vals_map_of_Some [OF Cons.prems(10), of k w] look Some by auto
    obtain s' cw' where s': "call s v w = Some (Inr s')" "\<forall>x. x \<notin> set cw \<longrightarrow> s' x = s x"
        "cells m s' w = Some cw'" "set cw' \<subseteq> set cw \<union> set ov"
        "value_of m s' w = Some (object_merge pv pw False)"
      using call [OF ov_s cw_s cw(3) disj keys pv_s pw(1)] by blast
    have step: "merge_items_st call a b (length kvs) (kv # rest) s
                  = merge_items_st call a b (length kvs) rest s'"
      using size Cons.prems(5) look Some s'(1) by (simp add: kv del: map_of_append)
    have val: "merge_items prest cur = merge_items prest' (set_item k (object_merge pv pw False) cur)"
      using pv(3) pw(2) by simp
    have other: "cells m s' x = cells m s x \<and> value_of m s' x = value_of m s x"
      if x: "(k1, x) \<in> set ?L" "k1 \<noteq> k" for k1 x
    proof -
      obtain cx where cx: "cells m s x = Some cx" "set cx \<subseteq> U \<union> set (concat css)"
        "\<forall>k' w' cw'. k' \<noteq> k1 \<and> map_of kws k' = Some w' \<and> cells m s0 w' = Some cw'
                \<longrightarrow> set cx \<inter> set cw' = {}"
        using item_cells [OF x(1)] by blast
      have "k \<noteq> k1 \<and> map_of kws k = Some w \<and> cells m s0 w = Some cw"
        using x(2) Some cw(1) by simp
      then have "set cx \<inter> set cw = {}"
        using cx(3) by blast
      then have same: "\<forall>z\<in>set cx. s' z = s z"
        using s'(2) by blast
      show ?thesis
        using cells_cong [OF cx(1) same] value_of_cong [OF cx(1) same] cx(1) by simp
    qed
    have "\<exists>s'' L. merge_items_st call a b (length kvs) rest s' = Some (Inr s'')
          \<and> (\<forall>x. x \<notin> ?C \<longrightarrow> s'' x = s0 x)
          \<and> s'' b = Some (ODict L)
          \<and> dict_vals (value_of m s'') L
              = Some (merge_items prest' (set_item k (object_merge pv pw False) cur))
          \<and> (\<forall>(k, x)\<in>set L. \<exists>cx. cells m s'' x = Some cx \<and> set cx \<subseteq> U \<union> set (concat css))"
    proof (rule Cons.IH [of prest' s' ext])
      show "\<forall>(k, v)\<in>set rest. \<exists>ov. cells m s0 v = Some ov \<and> set ov \<subseteq> U
        \<and> (\<forall>x\<in>set ov. keys_ok (s0 x))"
        by (fact old')
      show "dict_vals (value_of m s0) rest = Some prest'" by (fact pv(2))
      show "distinct (map fst rest)" by (fact drest)
      show "\<forall>x. x \<notin> ?C \<longrightarrow> s' x = s0 x"
      proof (intro allI impI)
        fix x
        assume x: "x \<notin> ?C"
        then have "x \<notin> set cw" using cw(2) by blast
        then have "s' x = s x" using s'(2) by blast
        then show "s' x = s0 x" using Cons.prems(4) x by simp
      qed
      have "b \<notin> set cw" using cw(2) new(3) by blast
      then show "s' b = Some (ODict (kws @ ext))"
        using s'(2) Cons.prems(5) by simp
      show "fst ` set ext \<inter> fst ` set rest = {}"
        using Cons.prems(6) by auto
      show "distinct (map fst (kws @ ext))" by (fact Cons.prems(7))
      show "\<forall>k' v' w' cw'. (k', v') \<in> set rest \<and> map_of kws k' = Some w' \<and> cells m s0 w' = Some cw'
        \<longrightarrow> (\<forall>x\<in>set cw'. s' x = s0 x)"
      proof (intro allI impI ballI)
        fix k' v' w' cw' x
        assume h: "(k', v') \<in> set rest \<and> map_of kws k' = Some w' \<and> cells m s0 w' = Some cw'"
          and x: "x \<in> set cw'"
        have "k \<noteq> k'" using knew h by force
        then have "set cw \<inter> set cw' = {}"
          using child_cells_disjoint [OF new(1,2) Some _ _ cw(1)] h by blast
        then have "x \<notin> set cw" using x by blast
        moreover have "s x = s0 x"
          using Cons.prems(8) h x by (meson list.set_intros(2))
        ultimately show "s' x = s0 x" using s'(2) by simp
      qed
      show "\<forall>(k1, x)\<in>set (kws @ ext). \<exists>cx. cells m s' x = Some cx
        \<and> set cx \<subseteq> U \<union> set (concat css)
        \<and> (\<forall>k' w' cw'. k' \<noteq> k1 \<and> map_of kws k' = Some w' \<and> cells m s0 w' = Some cw'
              \<longrightarrow> set cx \<inter> set cw' = {})"
      proof (intro ballI, clarify)
        fix k1 x
        assume x: "(k1, x) \<in> set (kws @ ext)"
        show "\<exists>cx. cells m s' x = Some cx
          \<and> set cx \<subseteq> U \<union> set (concat css)
          \<and> (\<forall>k' w' cw'. k' \<noteq> k1 \<and> map_of kws k' = Some w' \<and> cells m s0 w' = Some cw'
                \<longrightarrow> set cx \<inter> set cw' = {})"
        proof (cases "k1 = k")
          case False
          then show ?thesis
            using other [OF x] item_cells [OF x] by simp
        next
          case True
          then have "x = w"
            using x inL Cons.prems(7) by (metis eq_key_imp_eq_value)
          moreover have "set cw' \<subseteq> U \<union> set (concat css)"
            using s'(4) cw(2) ov(2) by blast
          moreover have "set cw' \<inter> set c2 = {}"
            if "k' \<noteq> k" "map_of kws k' = Some w'" "cells m s0 w' = Some c2" for k' w' c2
          proof -
            have "set cw \<inter> set c2 = {}"
              using child_cells_disjoint [OF new(1,2) Some that(2) _ cw(1) that(3)] that(1) by blast
            moreover have "set c2 \<subseteq> set (concat css)"
              using child_cells [OF new(1) that(2)] that(3) by auto
            then have "set ov \<inter> set c2 = {}" using ov(2) U by blast
            ultimately show ?thesis using s'(4) by blast
          qed
          ultimately show ?thesis using s'(3) True by blast
        qed
      qed
      have "\<forall>(k', x)\<in>set ?L. k' \<noteq> k \<longrightarrow> value_of m s' x = value_of m s x"
        using other by blast
      moreover have "map_of ?L k = Some w"
        using look Some by simp
      ultimately show "dict_vals (value_of m s') (kws @ ext)
          = Some (set_item k (object_merge pv pw False) cur)"
        using Cons.prems(10) Cons.prems(7) s'(5)
        by (intro dict_vals_set_item [where f = "value_of m s" and w = w])
    qed
    then show ?thesis using step val by (simp only:)
  qed
qed

lemma object_merge_other:
  "\<not> (is_list x \<and> is_list y) \<Longrightarrow> \<not> (is_dict x \<and> is_dict y) \<Longrightarrow> object_merge x y u = y"
  by (cases x; cases y) simp_all

lemma value_of_scalar:
  assumes "value_of n s v = Some p" "\<And>a. v \<noteq> SRef a"
  shows "\<not> is_list p \<and> \<not> is_dict p"
  using assms by (cases n; cases v) auto

lemma value_of_list:
  assumes "value_of (Suc m) s (SRef a) = Some p" "s a = Some (OList xs)"
  shows "\<exists>ps. p = PList ps \<and> map_opt (value_of m s) xs = Some ps"
  using assms by auto

lemma value_of_dict:
  assumes "value_of (Suc m) s (SRef a) = Some p" "s a = Some (ODict kvs)"
  shows "\<exists>ps. p = PDict ps \<and> dict_vals (value_of m s) kvs = Some ps"
  using assms by auto

lemma map_opt_rev: "map_opt f xs = Some ps \<Longrightarrow> map_opt f (rev xs) = Some (rev ps)"
  by (simp add: map_opt_Some_iff)

lemma map_opt_mono:
  assumes "map_opt f xs = Some ps" "\<And>x p. f x = Some p \<Longrightarrow> g x = Some p"
  shows "map_opt g xs = Some ps"
  using assms(1) by (auto simp: map_opt_Some_iff intro: assms(2) elim: list_all2_mono)

lemma cells_bound:
  assumes "\<forall>z\<in>set zs. \<exists>c. cells m s z = Some c \<and> set c \<subseteq> X"
  shows "\<exists>css. map_opt (cells m s) zs = Some css \<and> set (concat css) \<subseteq> X"
  using assms
proof (induction zs)
  case Nil
  then show ?case by simp
next
  case (Cons z zs)
  obtain c where c: "cells m s z = Some c" "set c \<subseteq> X"
    using Cons.prems by auto
  obtain css where "map_opt (cells m s) zs = Some css" "set (concat css) \<subseteq> X"
    using Cons by auto
  with c show ?case by (intro exI [of _ "c # css"]) simp
qed

lemma object_merge_st_refines:
  assumes "cells n s old = Some os" "cells n s new = Some cs" "distinct cs"
    and "set os \<inter> set cs = {}" "\<forall>x\<in>set os \<union> set cs. keys_ok (s x)"
    and "value_of n s old = Some po" "value_of n s new = Some pn"
  shows "\<exists>s' cs'. object_merge_st (Suc n) s old new unique = Some (Inr s')
          \<and> (\<forall>x. x \<notin> set cs \<longrightarrow> s' x = s x)
          \<and> cells n s' new = Some cs' \<and> set cs' \<subseteq> set cs \<union> set os
          \<and> value_of n s' new = Some (object_merge po pn unique)"
  using assms
proof (induction n arbitrary: s old new unique os cs po pn)
  case 0
  have sc: "\<And>a. old \<noteq> SRef a" "\<And>a. new \<noteq> SRef a"
    using "0.prems"(1,2) by auto
  then have "object_merge_st (Suc 0) s old new unique = Some (Inr s)"
    by (cases old; cases new) auto
  moreover have "object_merge po pn unique = pn"
    using value_of_scalar [OF "0.prems"(6) sc(1)] by (simp add: object_merge_other)
  ultimately show ?case
    using "0.prems"(2,7) by (intro exI [of _ s] exI [of _ cs]) simp
next
  case (Suc m)
  have unchanged: ?case if "object_merge_st (Suc (Suc m)) s old new unique = Some (Inr s)"
    "object_merge po pn unique = pn"
    using that Suc.prems(2,7) by (intro exI [of _ s] exI [of _ cs]) simp
  have scalar: ?case if "(\<forall>a. old \<noteq> SRef a) \<or> (\<forall>a. new \<noteq> SRef a)"
  proof -
    have "object_merge_st (Suc (Suc m)) s old new unique = Some (Inr s)"
      using that by (cases old; cases new) auto
    moreover have "\<not> is_list po \<and> \<not> is_dict po \<or> \<not> is_list pn \<and> \<not> is_dict pn"
      using that value_of_scalar [OF Suc.prems(6)] value_of_scalar [OF Suc.prems(7)] by blast
    then have "object_merge po pn unique = pn"
      by (auto simp: object_merge_other)
    ultimately show ?thesis by (rule unchanged)
  qed
  show ?case
  proof (cases old)
    case (SRef a)
    show ?thesis
    proof (cases new)
      case new: (SRef b)
      obtain oa ass where oa: "s a = Some oa" "map_opt (cells m s) (slots oa) = Some ass"
          "os = a # concat ass"
        using Suc.prems(1) [unfolded SRef cells_ref_Suc] by blast
      obtain ob css where ob: "s b = Some ob" "map_opt (cells m s) (slots ob) = Some css"
          "cs = b # concat css"
        using Suc.prems(2) [unfolded new cells_ref_Suc] by blast
      have dcss: "distinct (concat css)" "b \<notin> set (concat css)"
        using Suc.prems(3) ob(3) by auto
      have a_out: "a \<notin> insert b (set (concat css))"
        using Suc.prems(4) oa(3) ob(3) by auto
      have U: "set os \<inter> insert b (set (concat css)) = {}"
        using Suc.prems(4) ob(3) by auto
      have old_slot: "\<exists>c. cells m s v = Some c \<and> set c \<subseteq> set os \<and> (\<forall>x\<in>set c. keys_ok (s x))"
        if v: "v \<in> set (slots oa)" for v
      proof -
        obtain c where c: "cells m s v = Some c" "set c \<subseteq> set (concat ass)"
          using slot_cells [OF oa(2) v] by blast
        then have "set c \<subseteq> set os" using oa(3) by auto
        then show ?thesis
          using c(1) Suc.prems(5) by (intro exI [of _ c]) auto
      qed
      have new_slot: "\<exists>c. cells m s v = Some c \<and> set c \<subseteq> set (concat css)"
        if v: "v \<in> set (slots ob)" for v
        using slot_cells [OF ob(2) v] by blast
      show ?thesis
      proof (cases oa)
        case oaL: (OList xs)
        obtain pxs where pxs: "po = PList pxs" "map_opt (value_of m s) xs = Some pxs"
          using value_of_list [OF Suc.prems(6) [unfolded SRef]] oa(1) oaL by auto
        show ?thesis
        proof (cases ob)
          case (OList ys)
          obtain pys where pys: "pn = PList pys" "map_opt (value_of m s) ys = Some pys"
            using value_of_list [OF Suc.prems(7) [unfolded new]] ob(1) OList by auto
          have "value_of (Suc (Suc m)) s old = Some po" "value_of (Suc (Suc m)) s new = Some pn"
            by (rule value_of_mono, fact Suc.prems(6)) (rule value_of_mono, fact Suc.prems(7))
          then have eq: "store_eq (Suc (Suc m)) s old new = Some (py_eq po pn)"
            by (simp add: store_eq_def)
          show ?thesis
          proof (cases "py_eq po pn")
            case True
            have "object_merge_st (Suc (Suc m)) s old new unique = Some (Inr s)"
              using SRef new oa(1) ob(1) oaL OList eq True by simp
            moreover have "object_merge po pn unique = pn"
              using True pxs(1) pys(1) by simp
            ultimately show ?thesis by (rule unchanged)
          next
            case False
            have slot: "\<exists>c. cells m s v = Some c \<and> b \<notin> set c \<and> set c \<subseteq> set cs \<union> set os"
              if v: "v \<in> set xs \<union> set ys" for v
            proof -
              consider "v \<in> set (slots oa)" | "v \<in> set (slots ob)"
                using v oaL OList by auto
              then show ?thesis
              proof cases
                case 1
                then obtain c where "cells m s v = Some c" "set c \<subseteq> set os"
                  using old_slot by blast
                then show ?thesis using U by (intro exI [of _ c]) auto
              next
                case 2
                then obtain c where "cells m s v = Some c" "set c \<subseteq> set (concat css)"
                  using new_slot by blast
                then show ?thesis using dcss(2) ob(3) by (intro exI [of _ c]) auto
              qed
            qed
            have slot': "\<forall>v\<in>set (rev xs) \<union> set ys. \<exists>c. cells (Suc m) s v = Some c \<and> b \<notin> set c"
            proof
              fix v
              assume "v \<in> set (rev xs) \<union> set ys"
              then obtain c where "cells m s v = Some c" "b \<notin> set c"
                using slot by auto
              then show "\<exists>c. cells (Suc m) s v = Some c \<and> b \<notin> set c"
                using cells_mono [of m s v c] by blast
            qed
            have vx: "map_opt (value_of (Suc m) s) (rev xs) = Some (rev pxs)"
              by (rule map_opt_rev, rule map_opt_mono [OF pxs(2)]) (rule value_of_mono)
            have vy: "map_opt (value_of (Suc m) s) ys = Some pys"
              by (rule map_opt_mono [OF pys(2)]) (rule value_of_mono)
            obtain zs where zs: "insert_loop_st (Suc m) unique b (rev xs) s
                = Some (Inr (s(b \<mapsto> OList zs)))"
                "map_opt (value_of (Suc m) s) zs = Some (insert_loop unique (rev pxs) pys)"
                "set zs \<subseteq> set (rev xs) \<union> set ys"
              using insert_loop_st_refines [of s b ys "rev xs" "Suc m" "rev pxs" pys unique]
                ob(1) OList slot' vx vy by blast
            let ?s' = "s(b \<mapsto> OList zs)"
            have run: "object_merge_st (Suc (Suc m)) s old new unique = Some (Inr ?s')"
              using SRef new oa(1) ob(1) oaL OList eq False zs(1) by simp
            have zslot: "\<exists>c. cells m s z = Some c \<and> b \<notin> set c \<and> set c \<subseteq> set cs \<union> set os"
              if z: "z \<in> set zs" for z
            proof -
              have "z \<in> set xs \<union> set ys" using z zs(3) by auto
              then show ?thesis by (rule slot)
            qed
            have zcell: "\<exists>c. cells m ?s' z = Some c \<and> set c \<subseteq> set cs \<union> set os"
              if z: "z \<in> set zs" for z
            proof -
              obtain c where c: "cells m s z = Some c" "b \<notin> set c" "set c \<subseteq> set cs \<union> set os"
                using zslot [OF z] by blast
              have "cells m ?s' z = Some c"
                by (rule cells_upd_other [OF c(1,2)])
              then show ?thesis using c(3) by blast
            qed
            have zval: "value_of m ?s' z = value_of (Suc m) s z" if z: "z \<in> set zs" for z
            proof -
              obtain c where c: "cells m s z = Some c" "b \<notin> set c"
                using zslot [OF z] by blast
              obtain p where p: "value_of m s z = Some p"
                using value_of_defined [OF c(1)] by blast
              have "value_of m ?s' z = Some p"
                using value_of_upd_other [OF c(1,2), of "OList zs"] p by simp
              then show ?thesis
                using value_of_mono [OF p] by simp
            qed
            obtain css' where css': "map_opt (cells m ?s') zs = Some css'"
                "set (concat css') \<subseteq> set cs \<union> set os"
              using cells_bound [of zs m ?s' "set cs \<union> set os"] zcell by blast
            have "map_opt (value_of m ?s') zs = map_opt (value_of (Suc m) s) zs"
              by (rule map_opt_cong) (rule zval)
            then have val: "value_of (Suc m) ?s' new = Some (object_merge po pn unique)"
              using zs(2) new False pxs(1) pys(1) by simp
            have cel: "cells (Suc m) ?s' new = Some (b # concat css')"
              using css'(1) new by simp
            have fr: "\<forall>x. x \<notin> set cs \<longrightarrow> ?s' x = s x"
              using ob(3) by simp
            have "set (b # concat css') \<subseteq> set cs \<union> set os"
              using css'(2) ob(3) by auto
            then show ?thesis
              using run fr cel val by (intro exI [of _ ?s'] exI [of _ "b # concat css'"]) blast
          qed
        next
          case (ODict kws)
          obtain pkws where "pn = PDict pkws"
            using value_of_dict [OF Suc.prems(7) [unfolded new]] ob(1) ODict by auto
          then have "object_merge po pn unique = pn"
            using pxs(1) by simp
          moreover have "object_merge_st (Suc (Suc m)) s old new unique = Some (Inr s)"
            using SRef new oa(1) ob(1) oaL ODict by simp
          ultimately show ?thesis by (intro unchanged)
        qed
      next
        case oaD: (ODict kvs)
        obtain pkvs where pkvs: "po = PDict pkvs" "dict_vals (value_of m s) kvs = Some pkvs"
          using value_of_dict [OF Suc.prems(6) [unfolded SRef]] oa(1) oaD by auto
        show ?thesis
        proof (cases ob)
          case (OList ys)
          obtain pys where "pn = PList pys"
            using value_of_list [OF Suc.prems(7) [unfolded new]] ob(1) OList by auto
          then have "object_merge po pn unique = pn"
            using pkvs(1) by simp
          moreover have "object_merge_st (Suc (Suc m)) s old new unique = Some (Inr s)"
            using SRef new oa(1) ob(1) oaD OList by simp
          ultimately show ?thesis by (intro unchanged)
        next
          case (ODict kws)
          obtain pkws where pkws: "pn = PDict pkws" "dict_vals (value_of m s) kws = Some pkws"
            using value_of_dict [OF Suc.prems(7) [unfolded new]] ob(1) ODict by auto
          let ?call = "\<lambda>s' value w. object_merge_st (Suc m) s' value w False"
          have "\<exists>s' L. merge_items_st ?call a b (length kvs) kvs s = Some (Inr s')
                  \<and> (\<forall>x. x \<notin> insert b (set (concat css)) \<longrightarrow> s' x = s x)
                  \<and> s' b = Some (ODict L)
                  \<and> dict_vals (value_of m s') L = Some (merge_items pkvs pkws)
                  \<and> (\<forall>(k, x)\<in>set L. \<exists>cx. cells m s' x = Some cx
                        \<and> set cx \<subseteq> set os \<union> set (concat css))"
          proof (rule merge_items_st_refines [where m = m and kws = kws and ext = "[]"])
            show "\<exists>s' cw'. ?call s v w = Some (Inr s') \<and> (\<forall>x. x \<notin> set cw \<longrightarrow> s' x = s x)
                \<and> cells m s' w = Some cw' \<and> set cw' \<subseteq> set cw \<union> set ov
                \<and> value_of m s' w = Some (object_merge pv pw False)"
              if "cells m s v = Some ov" "cells m s w = Some cw" "distinct cw"
                "set ov \<inter> set cw = {}" "\<forall>x\<in>set ov \<union> set cw. keys_ok (s x)"
                "value_of m s v = Some pv" "value_of m s w = Some pw" for s v w ov cw pv pw
              using Suc.IH [OF that] by simp
            show "s a = Some (ODict kvs)" using oa(1) oaD by simp
            show "a \<notin> insert b (set (concat css))" by (fact a_out)
            show "map_opt (cells m s) (map snd kws) = Some css" using ob(2) ODict by simp
            show "distinct (concat css)" "b \<notin> set (concat css)" by (fact dcss)+
            show "\<forall>x\<in>set (concat css). keys_ok (s x)"
              using Suc.prems(5) ob(3) by simp
            show "set os \<inter> insert b (set (concat css)) = {}" by (fact U)
            show "\<forall>(k, v)\<in>set kvs. \<exists>ov. cells m s v = Some ov
                \<and> set ov \<subseteq> set os \<and> (\<forall>x\<in>set ov. keys_ok (s x))"
              using old_slot oaD by force
            show "dict_vals (value_of m s) kvs = Some pkvs" by (fact pkvs(2))
            have "a \<in> set os" using oa(3) by simp
            then show "distinct (map fst kvs)"
              using Suc.prems(5) oa(1) oaD by force
            show "\<forall>x. x \<notin> insert b (set (concat css)) \<longrightarrow> s x = s x" by simp
            show "s b = Some (ODict (kws @ []))" using ob(1) ODict by simp
            show "fst ` set [] \<inter> fst ` set kvs = {}" by simp
            have "b \<in> set cs" using ob(3) by simp
            then show "distinct (map fst (kws @ []))"
              using Suc.prems(5) ob(1) ODict by force
            show "\<forall>k v w cw. (k, v) \<in> set kvs \<and> map_of kws k = Some w \<and> cells m s w = Some cw
                \<longrightarrow> (\<forall>x\<in>set cw. s x = s x)" by simp
            show "\<forall>(k, x)\<in>set (kws @ []). \<exists>cx. cells m s x = Some cx
                \<and> set cx \<subseteq> set os \<union> set (concat css)
                \<and> (\<forall>k' w' cw'. k' \<noteq> k \<and> map_of kws k' = Some w' \<and> cells m s w' = Some cw'
                      \<longrightarrow> set cx \<inter> set cw' = {})"
            proof (intro ballI, clarify)
              fix k x
              assume kx: "(k, x) \<in> set (kws @ [])"
              have dk: "distinct (map fst kws)"
                using Suc.prems(5) ob(1,3) ODict by force
              then have mk: "map_of kws k = Some x"
                using kx by simp
              obtain cx where cx: "cells m s x = Some cx" "set cx \<subseteq> set (concat css)"
                using child_cells [OF _ mk, of m s css] ob(2) ODict by auto
              have "set cx \<inter> set cw' = {}"
                if "k' \<noteq> k" "map_of kws k' = Some w'" "cells m s w' = Some cw'" for k' w' cw'
                using child_cells_disjoint [of m s kws css k x k' w' cx cw'] ob(2) ODict dcss(1)
                  mk cx(1) that by auto
              then show "\<exists>cx. cells m s x = Some cx
                \<and> set cx \<subseteq> set os \<union> set (concat css)
                \<and> (\<forall>k' w' cw'. k' \<noteq> k \<and> map_of kws k' = Some w' \<and> cells m s w' = Some cw'
                      \<longrightarrow> set cx \<inter> set cw' = {})"
                using cx by (intro exI [of _ cx]) blast
            qed
            show "dict_vals (value_of m s) (kws @ []) = Some pkws"
              using pkws(2) by simp
          qed
          then obtain s' L where s': "merge_items_st ?call a b (length kvs) kvs s = Some (Inr s')"
              "\<forall>x. x \<notin> insert b (set (concat css)) \<longrightarrow> s' x = s x"
              "s' b = Some (ODict L)"
              "dict_vals (value_of m s') L = Some (merge_items pkvs pkws)"
              "\<forall>(k, x)\<in>set L. \<exists>cx. cells m s' x = Some cx \<and> set cx \<subseteq> set os \<union> set (concat css)"
            by blast
          have run: "object_merge_st (Suc (Suc m)) s old new unique = Some (Inr s')"
            using SRef new oa(1) ob(1) oaD ODict s'(1) by simp
          have "\<forall>z\<in>set (map snd L). \<exists>c. cells m s' z = Some c \<and> set c \<subseteq> set os \<union> set (concat css)"
            using s'(5) by fastforce
          then obtain css' where css': "map_opt (cells m s') (map snd L) = Some css'"
              "set (concat css') \<subseteq> set os \<union> set (concat css)"
            using cells_bound [of "map snd L" m s' "set os \<union> set (concat css)"] by blast
          have cel: "cells (Suc m) s' new = Some (b # concat css')"
            using css'(1) s'(3) new by simp
          have val: "value_of (Suc m) s' new = Some (object_merge po pn unique)"
            using s'(3,4) new pkvs(1) pkws(1) by simp
          have fr: "\<forall>x. x \<notin> set cs \<longrightarrow> s' x = s x"
            using s'(2) ob(3) by simp
          have "set (b # concat css') \<subseteq> set cs \<union> set os"
            using css'(2) ob(3) by auto
          then show ?thesis
            using run fr cel val by (intro exI [of _ s'] exI [of _ "b # concat css'"]) blast
        qed
      qed
    qed (rule scalar, simp)+
  qed (rule scalar, simp)+
qed

text \<open>What a call on two dicts leaves, and two cases that need no hypothesis on sharing.\<close>

lemma value_of_kind:
  assumes "value_of n s v = Some p"
  shows "is_list p = is_list_st s v \<and> is_dict p = is_dict_st s v"
proof (cases v)
  case (SRef a)
  then obtain m where n: "n = Suc m"
    using assms by (cases n) auto
  then obtain ob where ob: "s a = Some ob"
    using assms SRef by (auto split: option.splits)
  show ?thesis
    using assms SRef n ob by (cases ob) (auto simp: is_list_st_def is_dict_st_def)
qed (use assms in \<open>cases n; auto simp: is_list_st_def is_dict_st_def\<close>)+

lemma value_of_PDict:
  assumes "value_of (Suc m) s (SRef b) = Some (PDict P)"
  shows "\<exists>L. s b = Some (ODict L) \<and> dict_vals (value_of m s) L = Some P"
proof -
  obtain ob where ob: "s b = Some ob"
    using assms by (auto split: option.splits)
  show ?thesis
    using assms ob by (cases ob) auto
qed

lemma dict_vals_lookup:
  "dict_vals f L = Some P \<Longrightarrow> map_of P k = Some p \<Longrightarrow> \<exists>x. map_of L k = Some x \<and> f x = Some p"
  by (induction L arbitrary: P) (auto split: option.splits if_splits)

lemma object_merge_st_mismatch:
  assumes "cells n s old = Some os" "cells n s new = Some cs"
    and "\<not> (is_list_st s old \<and> is_list_st s new)" "\<not> (is_dict_st s old \<and> is_dict_st s new)"
  shows "object_merge_st (Suc n) s old new unique = Some (Inr s)"
proof (cases "(\<exists>a. old = SRef a) \<and> (\<exists>b. new = SRef b)")
  case False
  then show ?thesis by (cases old; cases new) auto
next
  case True
  then obtain a b where ab: "old = SRef a" "new = SRef b" by blast
  then obtain m where n: "n = Suc m"
    using assms(1) by (cases n) auto
  obtain oa ob where o: "s a = Some oa" "s b = Some ob"
    using assms(1,2) ab n by (auto split: option.splits)
  show ?thesis
    using assms(3,4) ab o by (cases oa; cases ob) (auto simp: is_list_st_def is_dict_st_def)
qed

lemma merge_items_st_fresh:
  assumes "a \<noteq> b" "dict_size s a = Some size0" "s b = Some (ODict cur)"
    and "distinct (map fst rest)" "fst ` set rest \<inter> fst ` set cur = {}"
  shows "merge_items_st call a b size0 rest s = Some (Inr (s(b \<mapsto> ODict (cur @ rest))))"
  using assms(2-)
proof (induction rest arbitrary: s cur)
  case Nil
  have "s(b \<mapsto> ODict cur) = s"
    using Nil.prems(2) by (simp add: fun_upd_idem)
  then show ?case using Nil.prems(1) by simp
next
  case (Cons kv rest)
  obtain k v where kv: "kv = (k, v)" by (cases kv)
  let ?s1 = "s(b \<mapsto> ODict (cur @ [(k, v)]))"
  have none: "map_of cur k = None"
    using Cons.prems(4) by (auto simp: kv map_of_eq_None_iff)
  have step: "merge_items_st call a b size0 (kv # rest) s = merge_items_st call a b size0 rest ?s1"
    using Cons.prems(1,2) none by (simp add: kv)
  have ih: "merge_items_st call a b size0 rest ?s1
          = Some (Inr (?s1(b \<mapsto> ODict ((cur @ [(k, v)]) @ rest))))"
  proof (rule Cons.IH)
    show "dict_size ?s1 a = Some size0"
      using Cons.prems(1) assms(1) by simp
    show "?s1 b = Some (ODict (cur @ [(k, v)]))" by simp
    show "distinct (map fst rest)" using Cons.prems(3) by simp
    show "fst ` set rest \<inter> fst ` set (cur @ [(k, v)]) = {}"
      using Cons.prems(3,4) by (auto simp: kv)
  qed
  have upd: "?s1(b \<mapsto> ODict ((cur @ [(k, v)]) @ rest)) = s(b \<mapsto> ODict (cur @ kv # rest))"
    by (simp add: kv)
  show ?case
    unfolding step ih upd by (rule refl)
qed

lemma object_merge_st_fresh_keys:
  assumes "s a = Some (ODict kvs)" "s b = Some (ODict kws)"
    and "distinct (map fst kvs)" "fst ` set kvs \<inter> fst ` set kws = {}"
  shows "object_merge_st (Suc n) s (SRef a) (SRef b) unique
           = Some (Inr (s(b \<mapsto> ODict (kws @ kvs))))"
proof (cases "a = b")
  case True
  then have "kvs = []" using assms(1,2,4) by (cases kvs) auto
  moreover have "s(b \<mapsto> ODict kws) = s"
    using assms(2) by (simp add: fun_upd_idem)
  ultimately show ?thesis using assms(1,2) True by simp
next
  case False
  have "merge_items_st (\<lambda>s' value w. object_merge_st n s' value w False) a b (length kvs) kvs s
          = Some (Inr (s(b \<mapsto> ODict (kws @ kvs))))"
    using False assms by (intro merge_items_st_fresh) simp_all
  then show ?thesis using assms(1,2) by simp
qed

lemma object_merge_st_dicts:
  assumes "cells (Suc m) s (SRef a) = Some os" "cells (Suc m) s (SRef b) = Some cs"
    and "distinct cs" "set os \<inter> set cs = {}" "\<forall>x\<in>set os \<union> set cs. keys_ok (s x)"
    and "s a = Some (ODict kvs)" "s b = Some (ODict kws)"
  shows "\<exists>s' L pkvs pkws. object_merge_st (Suc (Suc m)) s (SRef a) (SRef b) unique = Some (Inr s')
          \<and> s' b = Some (ODict L)
          \<and> dict_vals (value_of m s) kvs = Some pkvs
          \<and> dict_vals (value_of m s) kws = Some pkws
          \<and> dict_vals (value_of m s') L = Some (merge_items pkvs pkws)
          \<and> distinct (map fst pkvs)"
proof -
  obtain po pn where po: "value_of (Suc m) s (SRef a) = Some po"
    and pn: "value_of (Suc m) s (SRef b) = Some pn"
    using value_of_defined assms(1,2) by blast
  obtain pkvs where pkvs: "po = PDict pkvs" "dict_vals (value_of m s) kvs = Some pkvs"
    using value_of_dict [OF po assms(6)] by blast
  obtain pkws where pkws: "pn = PDict pkws" "dict_vals (value_of m s) kws = Some pkws"
    using value_of_dict [OF pn assms(7)] by blast
  obtain s' where s': "object_merge_st (Suc (Suc m)) s (SRef a) (SRef b) unique = Some (Inr s')"
      "value_of (Suc m) s' (SRef b) = Some (object_merge po pn unique)"
    using object_merge_st_refines [OF assms(1-5) po pn, of unique] by blast
  have "value_of (Suc m) s' (SRef b) = Some (PDict (merge_items pkvs pkws))"
    using s'(2) pkvs(1) pkws(1) by simp
  then obtain L where L: "s' b = Some (ODict L)"
      "dict_vals (value_of m s') L = Some (merge_items pkvs pkws)"
    using value_of_PDict by blast
  have "a \<in> set os" using assms(1) by (auto simp: cells_ref_Suc simp del: cells.simps)
  then have "distinct (map fst kvs)"
    using assms(5,6) by force
  then have "distinct (map fst pkvs)"
    using dict_vals_keys [OF pkvs(2)] by simp
  then show ?thesis
    using s'(1) L pkvs(2) pkws(2) by blast
qed

section \<open>The claims on values\<close>

text \<open>
  C1 (as stated): for every pair of lists A and B, \<open>object_merge(A, B)\<close> with
  \<open>unique=False\<close> leaves B with length \<open>len(A) + len(B_original)\<close>. This fails when A and
  B are equal and not empty: line 27 returns before the loop, and B keeps its length.
\<close>

theorem object_merge_lists_equal_counterexample:
  "object_merge (PList [PInt 1]) (PList [PInt 1]) False = PList [PInt 1]
   \<and> length [PInt 1] \<noteq> length [PInt 1] + length [PInt 1]"
  by simp

text \<open>
  C1 (amended): for every pair of lists A and B that are not equal as sequences,
  \<open>object_merge(A, B)\<close> with \<open>unique=False\<close> leaves B equal to A followed by B_original:
  its length is \<open>len(A) + len(B_original)\<close>, its trailing part is B_original and the
  prepended block is A in A's order.
\<close>

theorem object_merge_lists_concat:
  assumes "\<not> py_eq (PList A) (PList B)"
  shows "\<exists>r. object_merge (PList A) (PList B) False = PList r
          \<and> r = A @ B
          \<and> length r = length A + length B
          \<and> drop (length A) r = B
          \<and> take (length A) r = A"
  using assms by (simp add: insert_loop_False)

theorem object_merge_lists_concat_witness:
  "\<not> py_eq (PList [PInt 1, PInt 2]) (PList [PInt 3])
   \<and> object_merge (PList [PInt 1, PInt 2]) (PList [PInt 3]) False = PList [PInt 1, PInt 2, PInt 3]"
  using object_merge_lists_concat [of "[PInt 1, PInt 2]" "[PInt 3]"] by simp

text \<open>
  C3: with \<open>old = {"a": [1,2], "b": {"x": 1}}\<close> and \<open>new = {"a": [3], "b": {"y": 2}}\<close>,
  after \<open>object_merge(old, new)\<close> the dict new is \<open>{"a": [1,2,3], "b": {"y": 2, "x": 1}}\<close>
  in insertion order, which is equal (\<open>==\<close>) to \<open>{"a": [1,2,3], "b": {"x": 1, "y": 2}}\<close>.
\<close>

theorem object_merge_scenario:
  "object_merge
     (PDict [(''a'', PList [PInt 1, PInt 2]), (''b'', PDict [(''x'', PInt 1)])])
     (PDict [(''a'', PList [PInt 3]), (''b'', PDict [(''y'', PInt 2)])]) False
   = PDict [(''a'', PList [PInt 1, PInt 2, PInt 3]), (''b'', PDict [(''y'', PInt 2), (''x'', PInt 1)])]
   \<and> py_eq
     (object_merge
       (PDict [(''a'', PList [PInt 1, PInt 2]), (''b'', PDict [(''x'', PInt 1)])])
       (PDict [(''a'', PList [PInt 3]), (''b'', PDict [(''y'', PInt 2)])]) False)
     (PDict [(''a'', PList [PInt 1, PInt 2, PInt 3]), (''b'', PDict [(''x'', PInt 1), (''y'', PInt 2)])])"
  by simp




text \<open>
  C5: when old and new are lists that are equal as sequences, \<open>object_merge(old, new)\<close>
  leaves new as it is, whatever \<open>unique\<close> is.
\<close>

theorem object_merge_equal_lists_unchanged:
  assumes "py_eq (PList old) (PList new)"
  shows "object_merge (PList old) (PList new) unique = PList new"
  using assms by simp

theorem object_merge_equal_lists_unchanged_witness:
  "py_eq (PList [PInt 1, PStr ''x'']) (PList [PInt 1, PStr ''x''])
   \<and> object_merge (PList [PInt 1, PStr ''x'']) (PList [PInt 1, PStr ''x'']) True
       = PList [PInt 1, PStr ''x'']"
  using object_merge_equal_lists_unchanged [of "[PInt 1, PStr ''x'']" "[PInt 1, PStr ''x'']" True]
  by simp

text \<open>
  C8: \<open>deduplicate\<close> returns a new list (its argument is only read) that is a
  subsequence of the input, in which no element is equal to an earlier one, to which
  every element of the input belongs or is equal to an element of it, and that keeps the
  first occurrence: the head of the input is the head of the output, and the rest of the
  output is \<open>deduplicate\<close> of the input without the elements equal to the head. Its
  length is at most the input's. \<open>deduplicate([3,1,2,1,3]) == [3,1,2]\<close> and
  \<open>deduplicate([]) == []\<close>.
\<close>

theorem deduplicate_first_occurrences:
  "subseq (deduplicate xs) xs
   \<and> set (deduplicate xs) \<subseteq> set xs
   \<and> (\<forall>x\<in>set xs. x \<in> set (deduplicate xs) \<or> py_in x (deduplicate xs))
   \<and> py_nodup (deduplicate xs)
   \<and> length (deduplicate xs) \<le> length xs
   \<and> deduplicate (y # ys) = y # deduplicate (filter (\<lambda>z. \<not> py_eq z y) ys)
   \<and> deduplicate [PInt 3, PInt 1, PInt 2, PInt 1, PInt 3] = [PInt 3, PInt 1, PInt 2]
   \<and> deduplicate [] = []"
proof -
  obtain r where r: "dedup_loop [] xs = [] @ r" "subseq r xs"
    using dedup_loop_prefix by blast
  then have sub: "subseq (deduplicate xs) xs"
    by (simp add: deduplicate_def)
  have a: "set (deduplicate xs) \<subseteq> set xs"
    using sub by (auto elim: list_emb_set)
  have b: "\<forall>x\<in>set xs. x \<in> set (deduplicate xs) \<or> py_in x (deduplicate xs)"
    by (simp add: deduplicate_def dedup_loop_covers)
  have c: "py_nodup (deduplicate xs)"
    unfolding deduplicate_def by (rule dedup_loop_nodup) (simp add: py_nodup_def)
  have d: "length (deduplicate xs) \<le> length xs"
    using sub by (rule list_emb_length)
  have e: "deduplicate [PInt 3, PInt 1, PInt 2, PInt 1, PInt 3] = [PInt 3, PInt 1, PInt 2]"
    by (simp add: deduplicate_def)
  have f: "deduplicate [] = []"
    by (simp add: deduplicate_def)
  show ?thesis
    using sub a b c d e f deduplicate_Cons by blast
qed

theorem deduplicate_first_occurrences_witness:
  "PInt 1 \<in> set [PInt 1, PStr ''a'', PInt 1]
   \<and> deduplicate [PInt 1, PStr ''a'', PInt 1] = [PInt 1, PStr ''a'']
   \<and> PInt 1 \<in> set (deduplicate [PInt 1, PStr ''a'', PInt 1])
   \<and> py_nodup [PInt 1, PStr ''a'']"
  using deduplicate_first_occurrences [of "[PInt 1, PStr ''a'', PInt 1]"]
  by (simp add: deduplicate_def)

text \<open>
  C9: \<open>bool(missing)\<close> is false; \<open>missing == Missing()\<close> is true; \<open>missing == None\<close> is
  false; a value is equal to the sentinel, on either side of \<open>==\<close>, exactly when it is
  an instance of \<open>Missing\<close>.
\<close>

theorem Missing_contract:
  "py_bool missing = False
   \<and> py_eq missing PMissing = True
   \<and> py_eq missing PNone = False
   \<and> Missing_eq y = (y = PMissing)
   \<and> py_eq missing y = (y = PMissing)
   \<and> py_eq y missing = (y = PMissing)"
  by (cases y) (simp_all add: missing_def Missing_bool_def Missing_eq_def)

section \<open>The claims on the store\<close>

text \<open>
  C2 (as stated): for every pair of mappings, after \<open>object_merge(old, new)\<close> every key
  of old is a key of new. This fails when new holds one object twice. In \<open>raise_store\<close>
  old and new share no object. The first step stores \<open>D\<close> in \<open>L\<close>; the second step
  iterates over \<open>D\<close> and, reaching \<open>L\<close> again, writes the key \<open>"z"\<close> into \<open>D\<close>: the loop over
  \<open>D\<close> raises \<open>RuntimeError\<close>, the call ends with it and the key \<open>"e"\<close> of old is never
  visited.
\<close>

theorem object_merge_st_raises_counterexample:
  "cells 5 raise_store (SRef 0) = Some [0, 1, 2, 3, 4, 2, 3, 4]
   \<and> cells 5 raise_store (SRef 5) = Some [5, 6, 7, 6]
   \<and> set [0, 1, 2, 3, 4, 2, 3, 4] \<inter> set [5, 6, 7, 6] = ({} :: addr set)
   \<and> raise_store 0 = Some (ODict [(''a'', SRef 1), (''b'', SRef 2), (''e'', SInt 1)])
   \<and> raise_store 5 = Some (ODict [(''a'', SRef 6), (''b'', SRef 7)])
   \<and> object_merge_st 6 raise_store (SRef 0) (SRef 5) False = Some (Inl RuntimeError)"
  by (simp add: raise_store_def eval_nat_numeral)

text \<open>
  C2 (amended): for every pair of mappings old and new that are finite and acyclic, share
  no object, and where no object of new is held twice within new, the call ends normally
  and afterwards every key of old is a key of new. For every pair of mappings that have
  no key in common, whatever they share, the call ends normally and leaves in new its
  own items followed by old's, every slot as it was, and nothing else in the store is
  changed.
\<close>

theorem object_merge_st_dict_keys:
  "(cells (Suc m) s (SRef a) = Some os \<and> cells (Suc m) s (SRef b) = Some cs
      \<and> distinct cs \<and> set os \<inter> set cs = {} \<and> (\<forall>x\<in>set os \<union> set cs. keys_ok (s x))
      \<and> s a = Some (ODict kvs) \<and> s b = Some (ODict kws)
    \<longrightarrow> (\<exists>s' L. object_merge_st (Suc (Suc m)) s (SRef a) (SRef b) unique = Some (Inr s')
          \<and> s' b = Some (ODict L) \<and> fst ` set kvs \<subseteq> fst ` set L))
   \<and> (s a' = Some (ODict kvs') \<and> s b' = Some (ODict kws')
      \<and> distinct (map fst kvs') \<and> fst ` set kvs' \<inter> fst ` set kws' = {}
    \<longrightarrow> object_merge_st (Suc n) s (SRef a') (SRef b') unique
          = Some (Inr (s(b' \<mapsto> ODict (kws' @ kvs')))))"
proof (intro conjI impI)
  assume h: "cells (Suc m) s (SRef a) = Some os \<and> cells (Suc m) s (SRef b) = Some cs
      \<and> distinct cs \<and> set os \<inter> set cs = {} \<and> (\<forall>x\<in>set os \<union> set cs. keys_ok (s x))
      \<and> s a = Some (ODict kvs) \<and> s b = Some (ODict kws)"
  then obtain s' L pkvs pkws where r:
      "object_merge_st (Suc (Suc m)) s (SRef a) (SRef b) unique = Some (Inr s')"
      "s' b = Some (ODict L)"
      "dict_vals (value_of m s) kvs = Some pkvs"
      "dict_vals (value_of m s') L = Some (merge_items pkvs pkws)"
    using object_merge_st_dicts [of m s a os b cs kvs kws unique] by blast
  have "map fst L = map fst (merge_items pkvs pkws)"
    using dict_vals_keys [OF r(4)] by simp
  moreover have "map fst pkvs = map fst kvs"
    by (rule dict_vals_keys [OF r(3)])
  moreover have "set (map fst pkvs) \<subseteq> set (map fst (merge_items pkvs pkws))"
    using keys_merge_items [of pkvs pkws] by auto
  ultimately have "set (map fst kvs) \<subseteq> set (map fst L)"
    by simp
  then have "fst ` set kvs \<subseteq> fst ` set L"
    by simp
  then show "\<exists>s' L. object_merge_st (Suc (Suc m)) s (SRef a) (SRef b) unique = Some (Inr s')
          \<and> s' b = Some (ODict L) \<and> fst ` set kvs \<subseteq> fst ` set L"
    using r(1,2) by blast
next
  assume "s a' = Some (ODict kvs') \<and> s b' = Some (ODict kws')
      \<and> distinct (map fst kvs') \<and> fst ` set kvs' \<inter> fst ` set kws' = {}"
  then show "object_merge_st (Suc n) s (SRef a') (SRef b') unique
          = Some (Inr (s(b' \<mapsto> ODict (kws' @ kvs'))))"
    by (intro object_merge_st_fresh_keys) simp_all
qed

theorem object_merge_st_dict_keys_witness:
  "cells 2 scenario_store (SRef 0) = Some [0, 1, 2]
   \<and> cells 2 scenario_store (SRef 3) = Some [3, 4, 5]
   \<and> distinct [3, 4, 5 :: addr]
   \<and> set [0, 1, 2] \<inter> set [3, 4, 5] = ({} :: addr set)
   \<and> keys_ok (scenario_store 0) \<and> keys_ok (scenario_store 1) \<and> keys_ok (scenario_store 2)
   \<and> keys_ok (scenario_store 3) \<and> keys_ok (scenario_store 4) \<and> keys_ok (scenario_store 5)
   \<and> scenario_store 0 = Some (ODict [(''a'', SRef 1), (''b'', SRef 2)])
   \<and> scenario_store 3 = Some (ODict [(''a'', SRef 4), (''b'', SRef 5)])
   \<and> obj_after (object_merge_st 3 scenario_store (SRef 0) (SRef 3) False) 3
       = Some (ODict [(''a'', SRef 4), (''b'', SRef 5)])
   \<and> scenario_store 2 = Some (ODict [(''x'', SInt 1)])
   \<and> scenario_store 5 = Some (ODict [(''y'', SInt 2)])
   \<and> distinct (map fst [(''x'', SInt 1)])
   \<and> fst ` set [(''x'', SInt 1)] \<inter> fst ` set [(''y'', SInt 2)] = {}
   \<and> obj_after (object_merge_st 1 scenario_store (SRef 2) (SRef 5) False) 5
       = Some (ODict [(''y'', SInt 2), (''x'', SInt 1)])"
  using object_merge_st_dict_keys [where m = "Suc 0" and s = scenario_store and a = 0
      and os = "[0, 1, 2]" and b = 3 and cs = "[3, 4, 5]"
      and kvs = "[(''a'', SRef 1), (''b'', SRef 2)]" and kws = "[(''a'', SRef 4), (''b'', SRef 5)]"
      and unique = False and a' = 2 and b' = 5 and kvs' = "[(''x'', SInt 1)]"
      and kws' = "[(''y'', SInt 2)]" and n = 0]
  by (simp add: scenario_store_def obj_after_def store_eq_def eval_nat_numeral)

text \<open>
  C6 (as stated): a key of both old and new whose two values are neither both lists nor
  both dicts keeps new's value. This fails when new holds one object twice. In
  \<open>mismatch_store\<close>, \<open>old["k"]\<close> is a dict and \<open>new["k"]\<close> is the list \<open>L\<close>, which is also
  \<open>new["j"]\<close>: the step for \<open>"k"\<close> changes nothing and the step for \<open>"j"\<close> prepends
  \<open>old["j"]\<close> to \<open>L\<close>, so \<open>new["k"]\<close> was \<open>[]\<close> and is \<open>[1]\<close> after the call.
\<close>

theorem object_merge_st_mismatch_counterexample:
  "cells 2 mismatch_store (SRef 0) = Some [0, 1, 2]
   \<and> cells 2 mismatch_store (SRef 3) = Some [3, 4, 4]
   \<and> set [0, 1, 2] \<inter> set [3, 4, 4] = ({} :: addr set)
   \<and> mismatch_store 0 = Some (ODict [(''k'', SRef 1), (''j'', SRef 2)])
   \<and> mismatch_store 3 = Some (ODict [(''k'', SRef 4), (''j'', SRef 4)])
   \<and> is_dict_st mismatch_store (SRef 1)
   \<and> is_list_st mismatch_store (SRef 4)
   \<and> mismatch_store 4 = Some (OList [])
   \<and> obj_after (object_merge_st 3 mismatch_store (SRef 0) (SRef 3) False) 3
       = Some (ODict [(''k'', SRef 4), (''j'', SRef 4)])
   \<and> obj_after (object_merge_st 3 mismatch_store (SRef 0) (SRef 3) False) 4
       = Some (OList [SInt 1])"
  by (simp add: mismatch_store_def obj_after_def store_eq_def is_dict_st_def is_list_st_def
      eval_nat_numeral)

text \<open>
  C6 (amended): for every pair old and new (finite and acyclic) that are neither both
  lists nor both dicts, the call ends normally and leaves the whole store as it was.
  For mappings old and new that are finite and acyclic, share no object, and where no
  object of new is held twice within new, a key of both whose two values are neither
  both lists nor both dicts has after the call the value it had in new.
\<close>

theorem object_merge_st_type_mismatch:
  "(cells n s old = Some os \<and> cells n s new = Some cs
      \<and> \<not> (is_list_st s old \<and> is_list_st s new) \<and> \<not> (is_dict_st s old \<and> is_dict_st s new)
    \<longrightarrow> object_merge_st (Suc n) s old new unique = Some (Inr s))
   \<and> (cells (Suc m) s (SRef a) = Some os' \<and> cells (Suc m) s (SRef b) = Some cs'
      \<and> distinct cs' \<and> set os' \<inter> set cs' = {} \<and> (\<forall>x\<in>set os' \<union> set cs'. keys_ok (s x))
      \<and> s a = Some (ODict kvs) \<and> s b = Some (ODict kws)
      \<and> map_of kvs k = Some v \<and> map_of kws k = Some w
      \<and> \<not> (is_list_st s v \<and> is_list_st s w) \<and> \<not> (is_dict_st s v \<and> is_dict_st s w)
    \<longrightarrow> (\<exists>s' L x p. object_merge_st (Suc (Suc m)) s (SRef a) (SRef b) unique = Some (Inr s')
          \<and> s' b = Some (ODict L) \<and> map_of L k = Some x
          \<and> value_of m s w = Some p \<and> value_of m s' x = Some p))"
proof (intro conjI impI)
  assume "cells n s old = Some os \<and> cells n s new = Some cs
      \<and> \<not> (is_list_st s old \<and> is_list_st s new) \<and> \<not> (is_dict_st s old \<and> is_dict_st s new)"
  then show "object_merge_st (Suc n) s old new unique = Some (Inr s)"
    using object_merge_st_mismatch [of n s old os new cs unique] by blast
next
  assume h: "cells (Suc m) s (SRef a) = Some os' \<and> cells (Suc m) s (SRef b) = Some cs'
      \<and> distinct cs' \<and> set os' \<inter> set cs' = {} \<and> (\<forall>x\<in>set os' \<union> set cs'. keys_ok (s x))
      \<and> s a = Some (ODict kvs) \<and> s b = Some (ODict kws)
      \<and> map_of kvs k = Some v \<and> map_of kws k = Some w
      \<and> \<not> (is_list_st s v \<and> is_list_st s w) \<and> \<not> (is_dict_st s v \<and> is_dict_st s w)"
  then obtain s' L pkvs pkws where r:
      "object_merge_st (Suc (Suc m)) s (SRef a) (SRef b) unique = Some (Inr s')"
      "s' b = Some (ODict L)"
      "dict_vals (value_of m s) kvs = Some pkvs"
      "dict_vals (value_of m s) kws = Some pkws"
      "dict_vals (value_of m s') L = Some (merge_items pkvs pkws)"
      "distinct (map fst pkvs)"
    using object_merge_st_dicts [of m s a os' b cs' kvs kws unique] by blast
  obtain pv where pv: "value_of m s v = Some pv" "map_of pkvs k = Some pv"
    using dict_vals_map_of_Some [OF r(3), of k v] h by blast
  obtain pw where pw: "value_of m s w = Some pw" "map_of pkws k = Some pw"
    using dict_vals_map_of_Some [OF r(4), of k w] h by blast
  have "\<not> (is_list pv \<and> is_list pw)" "\<not> (is_dict pv \<and> is_dict pw)"
    using value_of_kind [OF pv(1)] value_of_kind [OF pw(1)] h by auto
  then have "object_merge pv pw False = pw"
    by (rule object_merge_other)
  then have "map_of (merge_items pkvs pkws) k = Some pw"
    using map_of_merge_items [OF r(6), of pkws k] pv(2) pw(2) by simp
  then obtain x where "map_of L k = Some x" "value_of m s' x = Some pw"
    using dict_vals_lookup [OF r(5)] by blast
  then show "\<exists>s' L x p. object_merge_st (Suc (Suc m)) s (SRef a) (SRef b) unique = Some (Inr s')
          \<and> s' b = Some (ODict L) \<and> map_of L k = Some x
          \<and> value_of m s w = Some p \<and> value_of m s' x = Some p"
    using r(1,2) pw(1) by blast
qed

theorem object_merge_st_type_mismatch_witness:
  "cells 1 kinds_store (SRef 1) = Some [1]
   \<and> cells 1 kinds_store (SRef 3) = Some [3]
   \<and> is_list_st kinds_store (SRef 1) \<and> \<not> is_list_st kinds_store (SRef 3)
   \<and> is_dict_st kinds_store (SRef 3) \<and> \<not> is_dict_st kinds_store (SRef 1)
   \<and> object_merge_st 2 kinds_store (SRef 1) (SRef 3) True = Some (Inr kinds_store)
   \<and> cells 2 kinds_store (SRef 0) = Some [0, 1]
   \<and> cells 2 kinds_store (SRef 2) = Some [2, 3]
   \<and> distinct [2, 3 :: addr]
   \<and> set [0, 1] \<inter> set [2, 3] = ({} :: addr set)
   \<and> keys_ok (kinds_store 0) \<and> keys_ok (kinds_store 1)
   \<and> keys_ok (kinds_store 2) \<and> keys_ok (kinds_store 3)
   \<and> kinds_store 0 = Some (ODict [(''k'', SRef 1)])
   \<and> kinds_store 2 = Some (ODict [(''k'', SRef 3)])
   \<and> map_of [(''k'', SRef 1)] ''k'' = Some (SRef 1)
   \<and> map_of [(''k'', SRef 3)] ''k'' = Some (SRef 3)
   \<and> obj_after (object_merge_st 3 kinds_store (SRef 0) (SRef 2) True) 2
       = Some (ODict [(''k'', SRef 3)])
   \<and> obj_after (object_merge_st 3 kinds_store (SRef 0) (SRef 2) True) 3
       = Some (ODict [(''z'', SNone)])"
  using object_merge_st_type_mismatch [where n = "Suc 0" and s = kinds_store and old = "SRef 1"
      and os = "[1]" and new = "SRef 3" and cs = "[3]" and unique = True and m = "Suc 0"
      and a = 0 and os' = "[0, 1]" and b = 2 and cs' = "[2, 3]" and kvs = "[(''k'', SRef 1)]"
      and kws = "[(''k'', SRef 3)]" and k = "''k''" and v = "SRef 1" and w = "SRef 3"]
  by (simp add: kinds_store_def obj_after_def store_eq_def is_list_st_def is_dict_st_def
      eval_nat_numeral)

text \<open>
  C7 (as stated): under a key of both mappings, nested lists receive old's elements
  prepended, no item skipped. This fails when the two lists are equal:
  in \<open>equal_store\<close> the recursive call returns at the guard of line 27 and \<open>new["k"]\<close>
  stays \<open>[1]\<close>. And when new holds one list twice, what is under the key after the call
  is not what the recursive call for that key left: in \<open>twice_store\<close> the list under
  \<open>"k"\<close> ends as \<open>[2, 1, 9]\<close>, not as \<open>old["k"]\<close> followed by \<open>new["k"]\<close>, \<open>[1, 9]\<close>.
\<close>

theorem object_merge_st_nested_counterexample:
  "equal_store 1 = Some (OList [SInt 1])
   \<and> equal_store 3 = Some (OList [SInt 1])
   \<and> obj_after (object_merge_st 3 equal_store (SRef 0) (SRef 2) True) 3 = Some (OList [SInt 1])
   \<and> obj_after (object_merge_st 3 equal_store (SRef 0) (SRef 2) False) 3 = Some (OList [SInt 1])
   \<and> cells 2 twice_store (SRef 0) = Some [0, 1, 2]
   \<and> cells 2 twice_store (SRef 3) = Some [3, 4, 4]
   \<and> set [0, 1, 2] \<inter> set [3, 4, 4] = ({} :: addr set)
   \<and> obj_after (object_merge_st 3 twice_store (SRef 0) (SRef 3) False) 4
       = Some (OList [SInt 2, SInt 1, SInt 9])
   \<and> object_merge (PList [PInt 1]) (PList [PInt 9]) False = PList [PInt 1, PInt 9]"
  by (simp add: equal_store_def twice_store_def obj_after_def store_eq_def eval_nat_numeral)

text \<open>
  C7 (amended): for every pair of mappings the call with any \<open>unique\<close> is the call with
  \<open>unique=False\<close>: the flag does not reach the recursive calls. For mappings old and new
  that are finite and acyclic, share no object, and where no object of new is held twice
  within new, the value under a key k of both is after the call the result of merging
  \<open>old[k]\<close> into \<open>new[k]\<close> with \<open>unique=False\<close>, whatever \<open>unique\<close> the call was given; two
  lists under k that are not equal end as old's list followed by new's, no item
  skipped (two equal lists are left as they are).
\<close>

theorem object_merge_st_nested_not_unique:
  "(s a = Some (ODict kvs) \<and> s b = Some (ODict kws)
    \<longrightarrow> object_merge_st n s (SRef a) (SRef b) unique = object_merge_st n s (SRef a) (SRef b) False)
   \<and> (cells (Suc m) s (SRef a) = Some os \<and> cells (Suc m) s (SRef b) = Some cs
      \<and> distinct cs \<and> set os \<inter> set cs = {} \<and> (\<forall>x\<in>set os \<union> set cs. keys_ok (s x))
      \<and> s a = Some (ODict kvs) \<and> s b = Some (ODict kws)
      \<and> map_of kvs k = Some v \<and> map_of kws k = Some w
    \<longrightarrow> (\<exists>s' L x pv pw. object_merge_st (Suc (Suc m)) s (SRef a) (SRef b) unique = Some (Inr s')
          \<and> s' b = Some (ODict L) \<and> map_of L k = Some x
          \<and> value_of m s v = Some pv \<and> value_of m s w = Some pw
          \<and> value_of m s' x = Some (object_merge pv pw False)
          \<and> (\<forall>A B. pv = PList A \<and> pw = PList B \<and> \<not> py_eq pv pw
                \<longrightarrow> value_of m s' x = Some (PList (A @ B)))))"
proof (intro conjI impI)
  assume "s a = Some (ODict kvs) \<and> s b = Some (ODict kws)"
  then show "object_merge_st n s (SRef a) (SRef b) unique = object_merge_st n s (SRef a) (SRef b) False"
    by (cases n) simp_all
next
  assume h: "cells (Suc m) s (SRef a) = Some os \<and> cells (Suc m) s (SRef b) = Some cs
      \<and> distinct cs \<and> set os \<inter> set cs = {} \<and> (\<forall>x\<in>set os \<union> set cs. keys_ok (s x))
      \<and> s a = Some (ODict kvs) \<and> s b = Some (ODict kws)
      \<and> map_of kvs k = Some v \<and> map_of kws k = Some w"
  then obtain s' L pkvs pkws where r:
      "object_merge_st (Suc (Suc m)) s (SRef a) (SRef b) unique = Some (Inr s')"
      "s' b = Some (ODict L)"
      "dict_vals (value_of m s) kvs = Some pkvs"
      "dict_vals (value_of m s) kws = Some pkws"
      "dict_vals (value_of m s') L = Some (merge_items pkvs pkws)"
      "distinct (map fst pkvs)"
    using object_merge_st_dicts [of m s a os b cs kvs kws unique] by blast
  obtain pv where pv: "value_of m s v = Some pv" "map_of pkvs k = Some pv"
    using dict_vals_map_of_Some [OF r(3), of k v] h by blast
  obtain pw where pw: "value_of m s w = Some pw" "map_of pkws k = Some pw"
    using dict_vals_map_of_Some [OF r(4), of k w] h by blast
  have "map_of (merge_items pkvs pkws) k = Some (object_merge pv pw False)"
    using map_of_merge_items [OF r(6), of pkws k] pv(2) pw(2) by simp
  then obtain x where x: "map_of L k = Some x" "value_of m s' x = Some (object_merge pv pw False)"
    using dict_vals_lookup [OF r(5)] by blast
  have "\<forall>A B. pv = PList A \<and> pw = PList B \<and> \<not> py_eq pv pw
          \<longrightarrow> value_of m s' x = Some (PList (A @ B))"
    using x(2) by (auto simp: insert_loop_False)
  then show "\<exists>s' L x pv pw. object_merge_st (Suc (Suc m)) s (SRef a) (SRef b) unique = Some (Inr s')
          \<and> s' b = Some (ODict L) \<and> map_of L k = Some x
          \<and> value_of m s v = Some pv \<and> value_of m s w = Some pw
          \<and> value_of m s' x = Some (object_merge pv pw False)
          \<and> (\<forall>A B. pv = PList A \<and> pw = PList B \<and> \<not> py_eq pv pw
                \<longrightarrow> value_of m s' x = Some (PList (A @ B)))"
    using r(1,2) x pv(1) pw(1) by blast
qed

theorem object_merge_st_nested_not_unique_witness:
  "nested_store 0 = Some (ODict [(''k'', SRef 1)])
   \<and> nested_store 2 = Some (ODict [(''k'', SRef 3)])
   \<and> object_merge_st 3 nested_store (SRef 0) (SRef 2) True
       = object_merge_st 3 nested_store (SRef 0) (SRef 2) False
   \<and> cells 2 nested_store (SRef 0) = Some [0, 1]
   \<and> cells 2 nested_store (SRef 2) = Some [2, 3]
   \<and> distinct [2, 3 :: addr]
   \<and> set [0, 1] \<inter> set [2, 3] = ({} :: addr set)
   \<and> keys_ok (nested_store 0) \<and> keys_ok (nested_store 1)
   \<and> keys_ok (nested_store 2) \<and> keys_ok (nested_store 3)
   \<and> map_of [(''k'', SRef 1)] ''k'' = Some (SRef 1)
   \<and> map_of [(''k'', SRef 3)] ''k'' = Some (SRef 3)
   \<and> value_of 1 nested_store (SRef 1) = Some (PList [PInt 1])
   \<and> value_of 1 nested_store (SRef 3) = Some (PList [PInt 1, PInt 2])
   \<and> \<not> py_eq (PList [PInt 1]) (PList [PInt 1, PInt 2])
   \<and> obj_after (object_merge_st 3 nested_store (SRef 0) (SRef 2) True) 2
       = Some (ODict [(''k'', SRef 3)])
   \<and> obj_after (object_merge_st 3 nested_store (SRef 0) (SRef 2) True) 3
       = Some (OList [SInt 1, SInt 1, SInt 2])"
  using object_merge_st_nested_not_unique [where s = nested_store and a = 0 and b = 2
      and kvs = "[(''k'', SRef 1)]" and kws = "[(''k'', SRef 3)]" and n = 3 and unique = True
      and m = "Suc 0" and os = "[0, 1]" and cs = "[2, 3]" and k = "''k''" and v = "SRef 1"
      and w = "SRef 3"]
  by (simp add: nested_store_def obj_after_def store_eq_def eval_nat_numeral)


text \<open>
  C10 (as stated): when old and new share no object, \<open>object_merge\<close> never modifies
  old. This fails when new holds one object twice. In \<open>alias_store\<close> old and new share
  nothing; the first step stores old's dict \<open>old["a"]["x"]\<close> (address 3) in \<open>L\<close>, and the
  second step, reaching \<open>L\<close> again through \<open>new["b"]\<close>, merges \<open>old["b"]["x"]\<close> into it:
  \<open>old["a"]["x"]\<close> was \<open>{}\<close> and is \<open>{"z": 1}\<close> after the call.
\<close>

theorem object_merge_st_alias_counterexample:
  "cells 3 alias_store (SRef 0) = Some [0, 1, 3, 2, 4]
   \<and> cells 3 alias_store (SRef 5) = Some [5, 6, 6]
   \<and> set [0, 1, 3, 2, 4] \<inter> set [5, 6, 6] = ({} :: addr set)
   \<and> alias_store 3 = Some (ODict [])
   \<and> obj_after (object_merge_st 4 alias_store (SRef 0) (SRef 5) False) 3
       = Some (ODict [(''z'', SInt 1)])"
  by (simp add: alias_store_def obj_after_def eval_nat_numeral)

text \<open>
  C10 (amended): when old and new are finite and acyclic, share no object, and no
  object of new is held twice within new (the cells of new are distinct), the call
  ends normally, every object of old is after the call what it was before, so old
  has the value it had, and the only objects written are those of new. The call
  returns nothing: its result is the store alone.
\<close>

theorem object_merge_st_old_unchanged:
  assumes "cells n s old = Some os" "cells n s new = Some cs"
    and "distinct cs" "set os \<inter> set cs = {}" "\<forall>x\<in>set os. keys_ok (s x)"
  shows "\<exists>s'. object_merge_st (Suc n) s old new unique = Some (Inr s')
          \<and> (\<forall>x\<in>set os. s' x = s x)
          \<and> value_of n s' old = value_of n s old
          \<and> (\<forall>x. x \<notin> set cs \<longrightarrow> s' x = s x)"
proof -
  obtain s' where s': "object_merge_st (Suc n) s old new unique = Some (Inr s')"
      "\<forall>x. x \<notin> set cs \<longrightarrow> s' x = s x"
    using object_merge_st_frame [OF assms] by blast
  have "\<forall>x\<in>set os. s' x = s x"
    using s'(2) assms(4) by blast
  moreover from this have "value_of n s' old = value_of n s old"
    by (rule value_of_cong [OF assms(1)])
  ultimately show ?thesis using s' by blast
qed

theorem object_merge_st_old_unchanged_witness:
  "cells 2 scenario_store (SRef 0) = Some [0, 1, 2]
   \<and> cells 2 scenario_store (SRef 3) = Some [3, 4, 5]
   \<and> distinct [3, 4, 5 :: addr]
   \<and> set [0, 1, 2] \<inter> set [3, 4, 5] = ({} :: addr set)
   \<and> keys_ok (scenario_store 0) \<and> keys_ok (scenario_store 1) \<and> keys_ok (scenario_store 2)
   \<and> obj_after (object_merge_st 3 scenario_store (SRef 0) (SRef 3) True) 0 = scenario_store 0
   \<and> obj_after (object_merge_st 3 scenario_store (SRef 0) (SRef 3) True) 1 = scenario_store 1
   \<and> obj_after (object_merge_st 3 scenario_store (SRef 0) (SRef 3) True) 2 = scenario_store 2
   \<and> obj_after (object_merge_st 3 scenario_store (SRef 0) (SRef 3) True) 4
       = Some (OList [SInt 1, SInt 2, SInt 3])"
  using object_merge_st_old_unchanged [of 2 scenario_store "SRef 0" "[0, 1, 2]" "SRef 3" "[3, 4, 5]" True]
  by (simp add: scenario_store_def obj_after_def store_eq_def eval_nat_numeral)

end
